theory Spec2Isabelle
  imports Complex_Main
begin

section \<open>Numeric conventions\<close>

text \<open>
  The radial-profile routine \<^verbatim>\<open>Aux_ComputeProfile\<close> works on C++ \<^verbatim>\<open>double\<close>,
  \<^verbatim>\<open>int\<close> and \<^verbatim>\<open>long\<close>.

  A \<^verbatim>\<open>double\<close> is read as the real number it stands for, and an operation on
  \<^verbatim>\<open>double\<close> gives the exact result rounded to the nearest \<^verbatim>\<open>double\<close>
  (IEEE 754 binary64, ties to even): the function \<open>rnd\<close> below. The exponent range is
  taken as unbounded, so that overflow to infinity, subnormal numbers and NaN are outside
  the model, and a division by zero has HOL's value 0. \<^verbatim>\<open>sqrt\<close> is correctly rounded,
  as IEEE 754 asks; the functions \<^verbatim>\<open>log\<close> and \<^verbatim>\<open>pow\<close> of the C library are
  parameters of the model (\<open>log_libm\<close> and \<open>pow_libm\<close> of \<open>env_t\<close>). Rounding is
  modelled wherever a result decides a count, an index or a branch or is stored as a
  radius: in the bin geometry, the offsets and distances of the cells, the bin index and
  the maximum radius. The values that are accumulated in \<^verbatim>\<open>Data\<close> and \<^verbatim>\<open>Weight\<close>,
  their sums over cells, threads and ranks and the quotients of the normalisation are in
  exact arithmetic (OpenMP and MPI leave the order of the sums open).

  \<^verbatim>\<open>int\<close> is a 32-bit integer and \<^verbatim>\<open>long\<close> a HOL integer. The conversion of a
  \<^verbatim>\<open>double\<close> outside the range of \<^verbatim>\<open>int\<close> and an \<^verbatim>\<open>int\<close> addition that leaves
  the range are undefined behaviour in C++; the model stops there with \<open>IntOverflow\<close>.
  A read or write outside an array is undefined behaviour as well; where the code can
  reach one, the model stops with \<open>OutOfBounds\<close>.
\<close>

text \<open>The integer nearest to \<open>y\<close>, the even one of the two when \<open>y\<close> lies half-way.\<close>

definition nearest_even :: "real \<Rightarrow> int" where
  "nearest_even y =
     (let f = \<lfloor>y\<rfloor>; d = y - of_int f
      in if d < 1 / 2 then f else if 1 / 2 < d then f + 1 else if even f then f else f + 1)"

text \<open>
  The \<^verbatim>\<open>double\<close> nearest to \<open>x\<close>: for \<open>2^e \<le> |x| < 2^(e+1)\<close> the doubles are the
  multiples of \<open>2^(e-52)\<close>.
\<close>

definition rnd :: "real \<Rightarrow> real" where
  "rnd x =
     (if x = 0 then 0
      else (let q = 2 powi (\<lfloor>log 2 \<bar>x\<bar>\<rfloor> - 52)
            in sgn x * (of_int (nearest_even (\<bar>x\<bar> / q)) * q)))"

text \<open>The macros \<^verbatim>\<open>SQR\<close> and \<^verbatim>\<open>CUBE\<close>, before the product is rounded.\<close>

definition SQR :: "real \<Rightarrow> real" where
  "SQR x = x * x"

definition CUBE :: "real \<Rightarrow> real" where
  "CUBE x = x * x * x"

text \<open>The range of \<^verbatim>\<open>int\<close>.\<close>

definition INT_MAX :: int where
  "INT_MAX = 2147483647"

definition INT_MIN :: int where
  "INT_MIN = - 2147483648"

text \<open>Truncation toward zero, the value of \<^verbatim>\<open>int( x )\<close> where it is defined.\<close>

definition trunc :: "real \<Rightarrow> int" where
  "trunc x = (if 0 \<le> x then \<lfloor>x\<rfloor> else \<lceil>x\<rceil>)"

text \<open>\<^verbatim>\<open>ATAN2( y, x )\<close>: the angle of the point \<open>(x, y)\<close> in \<open>(-pi, pi]\<close>.\<close>

definition ATAN2 :: "real \<Rightarrow> real \<Rightarrow> real" where
  "ATAN2 y x =
     (if 0 < x then arctan (y / x)
      else if x < 0 \<and> 0 \<le> y then arctan (y / x) + pi
      else if x < 0 then arctan (y / x) - pi
      else if 0 < y then pi / 2
      else if y < 0 then - (pi / 2)
      else 0)"

section \<open>Data model\<close>

text \<open>
  The fatal exits of the routine. \<open>InvalidParameter\<close>, \<open>NegativeBin\<close> and
  \<open>UnsupportedQuantity\<close> are the calls of \<^verbatim>\<open>Aux_Error\<close>; \<open>BadAllocation\<close> is an
  allocation of a negative number of bins; \<open>OutOfBounds\<close> is an access outside an array
  and \<open>IntOverflow\<close> an \<^verbatim>\<open>int\<close> that leaves its range.
\<close>

datatype error = InvalidParameter | BadAllocation | UnsupportedQuantity | NegativeBin | OutOfBounds
  | IntOverflow

text \<open>An \<^verbatim>\<open>int\<close> result: defined inside the range of \<^verbatim>\<open>int\<close> only.\<close>

definition in_int :: "int \<Rightarrow> error + int" where
  "in_int i = (if INT_MIN \<le> i \<and> i \<le> INT_MAX then Inr i else Inl IntOverflow)"

text \<open>\<^verbatim>\<open>int( x )\<close> and \<^verbatim>\<open>(int)x\<close> on a \<^verbatim>\<open>double\<close>.\<close>

definition int_of_double :: "real \<Rightarrow> error + int" where
  "int_of_double x = in_int (trunc x)"

text \<open>
  The quantity codes of \<^verbatim>\<open>TVar\<close>. The five conserved fields index \<^verbatim>\<open>fluid[]\<close>;
  the three derived ones are computed per cell; every other integer code falls to the
  \<^verbatim>\<open>default\<close> branch of the switch.
\<close>

datatype quantity = DENS | MOMX | MOMY | MOMZ | ENGY | VRAD | PRESSURE | INTERNAL_ENGY
  | OtherQuantity int

text \<open>\<^verbatim>\<open>Profile_t\<close> of \<^verbatim>\<open>include/Profile.h\<close>, with the members the routine uses.\<close>

record Profile_t =
  NBin :: int
  LogBin :: bool
  LogBinRatio :: real
  MaxRadius :: real
  Center :: "nat \<Rightarrow> real"
  Radius :: "real list"
  Data :: "real list"
  Weight :: "real list"
  NCell :: "int list"

text \<open>The arguments of one call (the profile array and its length \<^verbatim>\<open>NProf\<close> apart).\<close>

record args_t =
  Center_in :: "nat \<Rightarrow> real"
  r_max_input :: real
  dr_min :: real
  LogBin_in :: bool
  LogBinRatio_in :: real
  RemoveEmpty :: bool
  TVar :: "quantity list"
  SingleLv :: int

text \<open>
  The build options and global parameters the routine reads: the macros
  \<^verbatim>\<open>GAMER_DEBUG\<close>, \<^verbatim>\<open>MHD\<close>, \<^verbatim>\<open>PS1\<close>, \<^verbatim>\<open>TOP_LEVEL\<close>, \<^verbatim>\<open>NULL_REAL\<close>, the number
  of OpenMP threads \<^verbatim>\<open>NT\<close> (1 without \<^verbatim>\<open>OPENMP\<close>), the runtime parameters
  \<^verbatim>\<open>GAMMA\<close> and \<^verbatim>\<open>OPT__BC_FLU\<close>, the two physics helpers, which are pure
  functions of the local cell state, and the functions \<^verbatim>\<open>log\<close> and \<^verbatim>\<open>pow\<close> of
  the C library on \<^verbatim>\<open>double\<close>.
\<close>

record env_t =
  GAMER_DEBUG :: bool
  MHD :: bool
  NT :: nat
  PS1 :: nat
  TOP_LEVEL :: nat
  GAMMA :: real
  NULL_REAL :: real
  OPT__BC_FLU :: "nat \<Rightarrow> int"
  BC_FLU_PERIODIC :: int
  Hydro_GetPressure ::
    "real \<Rightarrow> real \<Rightarrow> real \<Rightarrow> real \<Rightarrow> real \<Rightarrow> real \<Rightarrow> bool \<Rightarrow> real \<Rightarrow> real \<Rightarrow> real"
  MHD_GetCellCenteredBField ::
    "(nat \<Rightarrow> nat \<Rightarrow> nat \<Rightarrow> real) \<Rightarrow> (nat \<Rightarrow> nat \<Rightarrow> nat \<Rightarrow> real)
       \<Rightarrow> (nat \<Rightarrow> nat \<Rightarrow> nat \<Rightarrow> real) \<Rightarrow> nat \<Rightarrow> nat \<Rightarrow> nat \<Rightarrow> nat \<Rightarrow> nat \<Rightarrow> nat
       \<Rightarrow> (nat \<Rightarrow> real)"
  log_libm :: "real \<Rightarrow> real"
  pow_libm :: "real \<Rightarrow> real \<Rightarrow> real"

text \<open>Indices of the magnetic components in \<^verbatim>\<open>magnetic[]\<close> and in \<^verbatim>\<open>B[3]\<close>.\<close>

definition MAGX :: nat where "MAGX = 0"
definition MAGY :: nat where "MAGY = 1"
definition MAGZ :: nat where "MAGZ = 2"

text \<open>One patch: \<^verbatim>\<open>fluid[v][k][j][i]\<close> is \<open>fluid P v k j i\<close>.\<close>

record patch_t =
  son :: int
  EdgeL :: "nat \<Rightarrow> real"
  fluid :: "quantity \<Rightarrow> nat \<Rightarrow> nat \<Rightarrow> nat \<Rightarrow> real"
  magnetic :: "nat \<Rightarrow> nat \<Rightarrow> nat \<Rightarrow> nat \<Rightarrow> real"

text \<open>
  The part of the AMR structure of one MPI rank that the routine reads:
  \<^verbatim>\<open>amr->patch[Sg][lv][PID]\<close> is \<open>patch A Sg lv PID\<close>, and \<open>NPatchComma A lv 1\<close>
  is the number of real patches on level \<open>lv\<close>.
\<close>

record amr_t =
  BoxSize :: "nat \<Rightarrow> real"
  dh :: "nat \<Rightarrow> real"
  NPatchComma :: "nat \<Rightarrow> nat \<Rightarrow> nat"
  FluSg :: "nat \<Rightarrow> nat"
  patch :: "nat \<Rightarrow> nat \<Rightarrow> nat \<Rightarrow> patch_t"

text \<open>
  One MPI rank: its AMR data, the profile objects its caller passed, and the OpenMP
  schedule of its patch loop (\<open>sched R lv PID\<close> is the thread that runs patch \<open>PID\<close>
  of level \<open>lv\<close>; \<^verbatim>\<open>schedule( runtime )\<close> leaves it open).
\<close>

record rank_t =
  amr :: amr_t
  Prof_in :: "Profile_t list"
  sched :: "nat \<Rightarrow> nat \<Rightarrow> nat"

text \<open>
  The thread-private accumulators of one thread, indexed \<open>[p][b]\<close>
  (\<^verbatim>\<open>OMP_Data[p][TID][b]\<close> for a fixed \<^verbatim>\<open>TID\<close>).
\<close>

record omp_t =
  OMP_Data :: "real list list"
  OMP_Weight :: "real list list"
  OMP_NCell :: "int list list"

text \<open>One iteration of the cell loop: the level, the patch, the cell indices and the
  offset from the centre after the per-axis periodic correction.\<close>

record cell_t =
  c_lv :: nat
  c_PID :: nat
  c_k :: nat
  c_j :: nat
  c_i :: nat
  c_dx :: real
  c_dy :: real
  c_dz :: real

section \<open>Loops\<close>

text \<open>A \<^verbatim>\<open>for\<close> loop over the indices \<open>is\<close> whose body can abort the program.\<close>

fun for_loop :: "'i list \<Rightarrow> ('i \<Rightarrow> 's \<Rightarrow> error + 's) \<Rightarrow> 's \<Rightarrow> error + 's" where
  "for_loop [] body s = Inr s"
| "for_loop (i # is) body s =
     (case body i s of Inl e \<Rightarrow> Inl e | Inr s' \<Rightarrow> for_loop is body s')"

text \<open>The same for a computation per element whose results are collected.\<close>

fun map_err :: "('a \<Rightarrow> error + 'b) \<Rightarrow> 'a list \<Rightarrow> error + 'b list" where
  "map_err f [] = Inr []"
| "map_err f (x # xs) =
     (case f x of Inl e \<Rightarrow> Inl e
      | Inr y \<Rightarrow> (case map_err f xs of Inl e \<Rightarrow> Inl e | Inr ys \<Rightarrow> Inr (y # ys)))"

section \<open>Parameter check and bin geometry (lines 78--127)\<close>

text \<open>The three checks under \<^verbatim>\<open>#ifdef GAMER_DEBUG\<close>.\<close>

definition check_params :: "env_t \<Rightarrow> args_t \<Rightarrow> error + unit" where
  "check_params env a =
     (if GAMER_DEBUG env then
        (if r_max_input a \<le> 0 then Inl InvalidParameter
         else if dr_min a \<le> 0 then Inl InvalidParameter
         else if LogBin_in a \<and> LogBinRatio_in a \<le> 1 then Inl InvalidParameter
         else Inr ())
      else Inr ())"

text \<open>
  Modelled from the spec: \<^verbatim>\<open>Profile_t::AllocateMemory\<close> is declared in
  \<^verbatim>\<open>include/Profile.h\<close>, which is not among the sources. It allocates the four arrays
  with \<open>NBin\<close> entries each. Their initial content is never read (every entry is
  written before its first use), so the model fills them with zeros. A negative
  \<open>NBin\<close> cannot be allocated.
\<close>

definition AllocateMemory :: "Profile_t \<Rightarrow> error + Profile_t" where
  "AllocateMemory P =
     (if NBin P < 0 then Inl BadAllocation
      else Inr (P\<lparr>Radius := replicate (nat (NBin P)) 0,
                  Data := replicate (nat (NBin P)) 0,
                  Weight := replicate (nat (NBin P)) 0,
                  NCell := replicate (nat (NBin P)) 0\<rparr>))"

text \<open>
  Lines 95--105: the number of bins and the maximum radius. \<^verbatim>\<open>ceil\<close> gives a
  \<^verbatim>\<open>double\<close> without rounding; \<open>NBin - 1\<close> stays in the range of \<^verbatim>\<open>int\<close>,
  and an \<^verbatim>\<open>int\<close> is converted to \<^verbatim>\<open>double\<close> without rounding.
\<close>

definition set_NBin_MaxRadius :: "env_t \<Rightarrow> args_t \<Rightarrow> Profile_t \<Rightarrow> error + Profile_t" where
  "set_NBin_MaxRadius env a P =
     (if LogBin_in a then
        (case int_of_double (rnd (log_libm env (rnd (r_max_input a / dr_min a))
                                  / log_libm env (LogBinRatio_in a))) of
           Inl e \<Rightarrow> Inl e
         | Inr t \<Rightarrow>
             (case in_int (t + 2) of
                Inl e \<Rightarrow> Inl e
              | Inr n \<Rightarrow>
                  Inr (P\<lparr>NBin := n,
                         MaxRadius := rnd (dr_min a * pow_libm env (LogBinRatio_in a) (of_int (n - 1)))\<rparr>)))
      else
        (case int_of_double (of_int \<lceil>rnd (r_max_input a / dr_min a)\<rceil>) of
           Inl e \<Rightarrow> Inl e
         | Inr n \<Rightarrow> Inr (P\<lparr>NBin := n, MaxRadius := rnd (dr_min a * of_int n)\<rparr>)))"

text \<open>Lines 110--114: the recorded parameters.\<close>

definition record_params :: "args_t \<Rightarrow> Profile_t \<Rightarrow> Profile_t" where
  "record_params a P =
     (let P1 = P\<lparr>Center := (Center P)(0 := Center_in a 0, 1 := Center_in a 1, 2 := Center_in a 2)\<rparr>;
          P2 = P1\<lparr>LogBin := LogBin_in a\<rparr>
      in if LogBin_in a then P2\<lparr>LogBinRatio := LogBinRatio_in a\<rparr> else P2)"

text \<open>Lines 122--125: the radial coordinate stored at bin \<open>b\<close>.\<close>

definition radius_of_bin :: "env_t \<Rightarrow> args_t \<Rightarrow> nat \<Rightarrow> real" where
  "radius_of_bin env a b =
     (if LogBin_in a then rnd (dr_min a * pow_libm env (LogBinRatio_in a) (rnd (real b - 0.5)))
      else rnd (rnd (real b + 0.5) * dr_min a))"

text \<open>
  One iteration \<open>p\<close> of the loop of lines 91--127. The radius loop runs to
  \<^verbatim>\<open>Prof[0]->NBin\<close>, read after \<^verbatim>\<open>Prof[p]\<close> has been set.
\<close>

definition geometry_p :: "env_t \<Rightarrow> args_t \<Rightarrow> nat \<Rightarrow> Profile_t list \<Rightarrow> error + Profile_t list" where
  "geometry_p env a p Prof =
     (case set_NBin_MaxRadius env a (Prof ! p) of
        Inl e \<Rightarrow> Inl e
      | Inr P0 \<Rightarrow>
          (case AllocateMemory (record_params a P0) of
             Inl e \<Rightarrow> Inl e
           | Inr P \<Rightarrow>
               (let Prof1 = Prof[p := P];
                    n0 = nat (NBin (Prof1 ! 0))
                in Inr (Prof1[p := fold (\<lambda>b Q. Q\<lparr>Radius := (Radius Q)[b := radius_of_bin env a b]\<rparr>)
                                        [0..<n0] P]))))"

definition geometry :: "env_t \<Rightarrow> args_t \<Rightarrow> Profile_t list \<Rightarrow> error + Profile_t list" where
  "geometry env a Prof = for_loop [0..<length Prof] (geometry_p env a) Prof"

section \<open>Local accumulation (lines 145--316)\<close>

text \<open>\<^verbatim>\<open>Periodic[d]\<close> is read from the lower face of axis \<open>d\<close>.\<close>

definition Periodic :: "env_t \<Rightarrow> nat \<Rightarrow> bool" where
  "Periodic env d = (OPT__BC_FLU env (2 * d) = BC_FLU_PERIODIC env)"

definition HalfBox :: "amr_t \<Rightarrow> nat \<Rightarrow> real" where
  "HalfBox A d = rnd (0.5 * BoxSize A d)"

text \<open>The correction of one offset component (lines 189--192, 194--197, 199--202).\<close>

definition nearest_image :: "env_t \<Rightarrow> amr_t \<Rightarrow> nat \<Rightarrow> real \<Rightarrow> real" where
  "nearest_image env A d x =
     (if Periodic env d then
        (if x > HalfBox A d then rnd (x - BoxSize A d)
         else if x < - HalfBox A d then rnd (x + BoxSize A d)
         else x)
      else x)"

text \<open>The levels of the loop of line 173.\<close>

definition levels :: "env_t \<Rightarrow> args_t \<Rightarrow> nat list" where
  "levels env a =
     (let lv_min = (if SingleLv a < 0 then 0 else nat (SingleLv a));
          lv_max = (if SingleLv a < 0 then TOP_LEVEL env else nat (SingleLv a))
      in [lv_min..<Suc lv_max])"

text \<open>
  The iterations of the three cell loops of one patch, in the order \<open>k\<close>, \<open>j\<close>,
  \<open>i\<close>, each with its corrected offset (lines 183--202).
\<close>

definition patch_cells :: "env_t \<Rightarrow> amr_t \<Rightarrow> args_t \<Rightarrow> nat \<Rightarrow> nat \<Rightarrow> cell_t list" where
  "patch_cells env A a lv PID =
     (let h = dh A lv;
          x0 = rnd (rnd (EdgeL (patch A 0 lv PID) 0 + rnd (0.5 * h)) - Center_in a 0);
          y0 = rnd (rnd (EdgeL (patch A 0 lv PID) 1 + rnd (0.5 * h)) - Center_in a 1);
          z0 = rnd (rnd (EdgeL (patch A 0 lv PID) 2 + rnd (0.5 * h)) - Center_in a 2)
      in concat (map (\<lambda>k.
           let dz = nearest_image env A 2 (rnd (z0 + rnd (real k * h))) in
           concat (map (\<lambda>j.
             let dy = nearest_image env A 1 (rnd (y0 + rnd (real j * h))) in
             map (\<lambda>i.
               let dx = nearest_image env A 0 (rnd (x0 + rnd (real i * h))) in
               \<lparr>c_lv = lv, c_PID = PID, c_k = k, c_j = j, c_i = i,
                c_dx = dx, c_dy = dy, c_dz = dz\<rparr>)
               [0..<PS1 env])
             [0..<PS1 env]))
           [0..<PS1 env]))"

text \<open>The cells of the leaf patches of one level that thread \<open>t\<close> runs (lines 179--181).\<close>

definition level_cells :: "env_t \<Rightarrow> rank_t \<Rightarrow> args_t \<Rightarrow> nat \<Rightarrow> nat \<Rightarrow> cell_t list" where
  "level_cells env R a t lv =
     concat (map (\<lambda>PID.
        if sched R lv PID \<noteq> t then []
        else if son (patch (amr R) 0 lv PID) \<noteq> - 1 then []
        else patch_cells env (amr R) a lv PID)
       [0..<NPatchComma (amr R) lv 1])"

definition thread_cells :: "env_t \<Rightarrow> rank_t \<Rightarrow> args_t \<Rightarrow> nat \<Rightarrow> cell_t list" where
  "thread_cells env R a t = concat (map (level_cells env R a t) (levels env a))"

text \<open>Line 204.\<close>

definition cell_r2 :: "cell_t \<Rightarrow> real" where
  "cell_r2 c = rnd (rnd (rnd (SQR (c_dx c)) + rnd (SQR (c_dy c))) + rnd (SQR (c_dz c)))"

text \<open>Line 208.\<close>

definition cell_r :: "cell_t \<Rightarrow> real" where
  "cell_r c = rnd (sqrt (cell_r2 c))"

text \<open>Lines 209--210: the bin index of a cell at radius \<open>r\<close>.\<close>

definition bin_index :: "env_t \<Rightarrow> args_t \<Rightarrow> real \<Rightarrow> error + int" where
  "bin_index env a r =
     (if LogBin_in a then
        (if r < dr_min a then Inr 0
         else (case int_of_double (rnd (log_libm env (rnd (r / dr_min a))
                                        / log_libm env (LogBinRatio_in a))) of
                 Inl e \<Rightarrow> Inl e
               | Inr t \<Rightarrow> in_int (t + 1)))
      else int_of_double (rnd (r / dr_min a)))"

text \<open>
  Lines 206--217: whether a cell is accumulated, and into which bin. \<open>r_max2\<close> is
  \<^verbatim>\<open>SQR( Prof[0]->MaxRadius )\<close> and \<open>n0\<close> is \<^verbatim>\<open>Prof[0]->NBin\<close>. A negative bin
  is fatal in a debug build and an access outside the accumulators otherwise.
\<close>

definition cell_bin :: "env_t \<Rightarrow> args_t \<Rightarrow> real \<Rightarrow> int \<Rightarrow> cell_t \<Rightarrow> error + nat option" where
  "cell_bin env a r_max2 n0 c =
     (if cell_r2 c < r_max2 then
        (case bin_index env a (cell_r c) of
           Inl e \<Rightarrow> Inl e
         | Inr bin \<Rightarrow>
             if bin \<ge> n0 then Inr None
             else if bin < 0 then Inl (if GAMER_DEBUG env then NegativeBin else OutOfBounds)
             else Inr (Some (nat bin)))
      else Inr None)"

text \<open>
  Lines 224--308: the contribution and the weight of one cell to the profile of
  quantity \<open>quant\<close>; \<open>dv\<close> is the cell volume.
\<close>

definition cell_quant :: "env_t \<Rightarrow> amr_t \<Rightarrow> real \<Rightarrow> cell_t \<Rightarrow> quantity \<Rightarrow> error + real \<times> real" where
  "cell_quant env A dv c quant =
     (let fl = (\<lambda>v. fluid (patch A (FluSg A (c_lv c)) (c_lv c) (c_PID c)) v (c_k c) (c_j c) (c_i c));
          mag = (\<lambda>v. magnetic (patch A (FluSg A (c_lv c)) (c_lv c) (c_PID c)) v);
          B = MHD_GetCellCenteredBField env (mag MAGX) (mag MAGY) (mag MAGZ)
                (PS1 env) (PS1 env) (PS1 env) (c_i c) (c_j c) (c_k c)
      in case quant of
           VRAD \<Rightarrow>
             (let r = cell_r c;
                  Phi = ATAN2 (c_dy c) (c_dx c);
                  cosPhi = cos Phi;
                  sinPhi = sin Phi;
                  cosTheta = c_dz c / r;
                  sinTheta = sqrt (1 - SQR cosTheta);
                  MomRad = fl MOMX * sinTheta * cosPhi + fl MOMY * sinTheta * sinPhi
                           + fl MOMZ * cosTheta
              in Inr (MomRad * dv, fl DENS * dv))
         | PRESSURE \<Rightarrow>
             (let EngyB = (if MHD env then 0.5 * (SQR (B MAGX) + SQR (B MAGY) + SQR (B MAGZ))
                           else NULL_REAL env);
                  Pres = Hydro_GetPressure env (fl DENS) (fl MOMX) (fl MOMY) (fl MOMZ) (fl ENGY)
                           (GAMMA env - 1) False (NULL_REAL env) EngyB
              in Inr (Pres * dv, dv))
         | INTERNAL_ENGY \<Rightarrow>
             (let intengy0 = fl ENGY
                             - 0.5 * (SQR (fl MOMX) + SQR (fl MOMY) + SQR (fl MOMZ)) / fl DENS;
                  intengy = (if MHD env
                             then intengy0 - 0.5 * (SQR (B MAGX) + SQR (B MAGY) + SQR (B MAGZ))
                             else intengy0)
              in Inr (intengy * dv, dv))
         | OtherQuantity x \<Rightarrow> Inl UnsupportedQuantity
         | _ \<Rightarrow> Inr (fl quant * dv, dv))"

text \<open>Lines 219--311: the loop over the profiles for a cell that falls into bin \<open>bin\<close>.\<close>

definition add_cell_p :: "env_t \<Rightarrow> amr_t \<Rightarrow> args_t \<Rightarrow> cell_t \<Rightarrow> nat \<Rightarrow> nat \<Rightarrow> omp_t \<Rightarrow> error + omp_t" where
  "add_cell_p env A a c bin p st =
     (case cell_quant env A (CUBE (dh A (c_lv c))) c (TVar a ! p) of
        Inl e \<Rightarrow> Inl e
      | Inr (d, w) \<Rightarrow>
          Inr (st\<lparr>OMP_Data := (OMP_Data st)[p := (OMP_Data st ! p)[bin := OMP_Data st ! p ! bin + d]],
                 OMP_Weight := (OMP_Weight st)[p := (OMP_Weight st ! p)[bin := OMP_Weight st ! p ! bin + w]],
                 OMP_NCell := (OMP_NCell st)[p := (OMP_NCell st ! p)[bin := OMP_NCell st ! p ! bin + 1]]\<rparr>))"

text \<open>The body of the cell loop (lines 204--312).\<close>

definition cell_step :: "env_t \<Rightarrow> amr_t \<Rightarrow> args_t \<Rightarrow> nat \<Rightarrow> real \<Rightarrow> int \<Rightarrow> cell_t \<Rightarrow> omp_t \<Rightarrow> error + omp_t" where
  "cell_step env A a NProf r_max2 n0 c st =
     (case cell_bin env a r_max2 n0 c of
        Inl e \<Rightarrow> Inl e
      | Inr None \<Rightarrow> Inr st
      | Inr (Some bin) \<Rightarrow> for_loop [0..<NProf] (add_cell_p env A a c bin) st)"

text \<open>Lines 161--167: the accumulators of a thread start at zero.\<close>

definition omp_init :: "nat \<Rightarrow> int \<Rightarrow> omp_t" where
  "omp_init NProf n0 =
     \<lparr>OMP_Data = replicate NProf (replicate (nat n0) 0),
      OMP_Weight = replicate NProf (replicate (nat n0) 0),
      OMP_NCell = replicate NProf (replicate (nat n0) 0)\<rparr>"

text \<open>The parallel region as thread \<open>t\<close> runs it.\<close>

definition thread_run :: "env_t \<Rightarrow> rank_t \<Rightarrow> args_t \<Rightarrow> Profile_t list \<Rightarrow> nat \<Rightarrow> error + omp_t" where
  "thread_run env R a Prof t =
     for_loop (thread_cells env R a t)
       (cell_step env (amr R) a (length Prof) (rnd (SQR (MaxRadius (Prof ! 0)))) (NBin (Prof ! 0)))
       (omp_init (length Prof) (NBin (Prof ! 0)))"

section \<open>Sum over the threads (lines 319--336)\<close>

definition sum_threads_p :: "omp_t list \<Rightarrow> nat \<Rightarrow> nat \<Rightarrow> Profile_t \<Rightarrow> Profile_t" where
  "sum_threads_p omp n0 p P =
     (let P0 = fold (\<lambda>b Q. Q\<lparr>Data := (Data Q)[b := OMP_Data (omp ! 0) ! p ! b],
                              Weight := (Weight Q)[b := OMP_Weight (omp ! 0) ! p ! b],
                              NCell := (NCell Q)[b := OMP_NCell (omp ! 0) ! p ! b]\<rparr>) [0..<n0] P
      in fold (\<lambda>t. fold (\<lambda>b Q. Q\<lparr>Data := (Data Q)[b := Data Q ! b + OMP_Data (omp ! t) ! p ! b],
                                  Weight := (Weight Q)[b := Weight Q ! b + OMP_Weight (omp ! t) ! p ! b],
                                  NCell := (NCell Q)[b := NCell Q ! b + OMP_NCell (omp ! t) ! p ! b]\<rparr>)
                          [0..<n0])
           [1..<length omp] P0)"

definition sum_threads :: "omp_t list \<Rightarrow> Profile_t list \<Rightarrow> Profile_t list" where
  "sum_threads omp Prof =
     map (\<lambda>p. sum_threads_p omp (nat (NBin (Prof ! 0))) p (Prof ! p)) [0..<length Prof]"

text \<open>
  Everything one rank does before the reduction. \<^verbatim>\<open>Prof[0]\<close> is read right after
  the geometry loop, so an empty profile array is an access outside it.
\<close>

definition local_profile :: "env_t \<Rightarrow> args_t \<Rightarrow> rank_t \<Rightarrow> error + Profile_t list" where
  "local_profile env a R =
     (case check_params env a of
        Inl e \<Rightarrow> Inl e
      | Inr _ \<Rightarrow>
          (case geometry env a (Prof_in R) of
             Inl e \<Rightarrow> Inl e
           | Inr Prof \<Rightarrow>
               if Prof = [] \<or> NT env = 0 then Inl OutOfBounds
               else (case map_err (thread_run env R a Prof) [0..<NT env] of
                       Inl e \<Rightarrow> Inl e
                     | Inr omp \<Rightarrow> Inr (sum_threads omp Prof))))"

section \<open>Reduction over the ranks (lines 344--362)\<close>

text \<open>
  \<^verbatim>\<open>MPI_Reduce\<close> with \<^verbatim>\<open>MPI_SUM\<close> and \<^verbatim>\<open>MPI_IN_PLACE\<close>: the first \<open>n\<close> entries
  of the root's buffer become the sums, over all ranks, of the entries at the same
  index. \<open>bufs\<close> are the buffers of all ranks, the root's first.
\<close>

definition MPI_Reduce_SUM :: "nat \<Rightarrow> ('a::monoid_add) list list \<Rightarrow> 'a list" where
  "MPI_Reduce_SUM n bufs =
     map (\<lambda>b. sum_list (map (\<lambda>buf. buf ! b) bufs)) [0..<n] @ drop n (hd bufs)"

text \<open>The profiles of the root rank after the reduction; \<open>locals\<close> are the profile
  arrays of all ranks, the root's first.\<close>

definition reduce_root :: "Profile_t list list \<Rightarrow> Profile_t list" where
  "reduce_root locals =
     map (\<lambda>p. let P = hd locals ! p; n = nat (NBin P) in
            P\<lparr>Data := MPI_Reduce_SUM n (map (\<lambda>Prof. Data (Prof ! p)) locals),
              Weight := MPI_Reduce_SUM n (map (\<lambda>Prof. Weight (Prof ! p)) locals),
              NCell := MPI_Reduce_SUM n (map (\<lambda>Prof. NCell (Prof ! p)) locals)\<rparr>)
       [0..<length (hd locals)]"

section \<open>Normalisation by the root rank (lines 365--395)\<close>

text \<open>The body of the bin loop: the switch has no \<^verbatim>\<open>default\<close> branch.\<close>

definition normalize_bin :: "quantity \<Rightarrow> nat \<Rightarrow> Profile_t \<Rightarrow> Profile_t" where
  "normalize_bin quant b P =
     (if NCell P ! b > 0 then
        (case quant of
           VRAD \<Rightarrow> (if Weight P ! b > 0 then P\<lparr>Data := (Data P)[b := Data P ! b / Weight P ! b]\<rparr>
                    else P)
         | OtherQuantity x \<Rightarrow> P
         | _ \<Rightarrow> P\<lparr>Data := (Data P)[b := Data P ! b / Weight P ! b]\<rparr>)
      else P)"

definition normalize :: "args_t \<Rightarrow> Profile_t list \<Rightarrow> Profile_t list" where
  "normalize a Prof =
     map (\<lambda>p. fold (normalize_bin (TVar a ! p)) [0..<nat (NBin (Prof ! 0))] (Prof ! p))
       [0..<length Prof]"

section \<open>Broadcast (lines 398--404)\<close>

text \<open>
  \<^verbatim>\<open>MPI_Bcast\<close> of \<open>n\<close> entries: the first \<open>n\<close> entries of the receiving buffer
  become those of the root's buffer \<open>rbuf\<close>.
\<close>

definition MPI_Bcast :: "nat \<Rightarrow> 'a list \<Rightarrow> 'a list \<Rightarrow> 'a list" where
  "MPI_Bcast n rbuf buf = take n rbuf @ drop n buf"

definition bcast :: "Profile_t list \<Rightarrow> Profile_t list \<Rightarrow> Profile_t list" where
  "bcast Root Prof =
     map (\<lambda>p. let P = Prof ! p; n = nat (NBin P) in
            P\<lparr>Data := MPI_Bcast n (Data (Root ! p)) (Data P),
              Weight := MPI_Bcast n (Weight (Root ! p)) (Weight P),
              NCell := MPI_Bcast n (NCell (Root ! p)) (NCell P)\<rparr>)
       [0..<length Prof]"

section \<open>Removal of the empty bins (lines 407--440)\<close>

text \<open>Lines 416--417: the first non-empty bin from \<open>b_up\<close> on, or \<open>n\<close>.\<close>

function find_b_up :: "int list \<Rightarrow> nat \<Rightarrow> nat \<Rightarrow> nat" where
  "find_b_up ncell n b_up =
     (if b_up < n then (if ncell ! b_up \<noteq> 0 then b_up else find_b_up ncell n (Suc b_up))
      else b_up)"
  by pat_completeness auto
termination
  by (relation "measure (\<lambda>(ncell, n, b_up). n - b_up)") auto

declare find_b_up.simps [simp del]

text \<open>Lines 427--430: one bin of one profile moves down by \<open>stride\<close>.\<close>

definition shift_bin :: "nat \<Rightarrow> nat \<Rightarrow> Profile_t \<Rightarrow> Profile_t" where
  "shift_bin stride b_up P =
     P\<lparr>Radius := (Radius P)[b_up - stride := Radius P ! b_up],
       Data := (Data P)[b_up - stride := Data P ! b_up],
       Weight := (Weight P)[b_up - stride := Weight P ! b_up],
       NCell := (NCell P)[b_up - stride := NCell P ! b_up]\<rparr>"

text \<open>Lines 419--436: the bins from \<open>b_up\<close> on move down onto \<open>b\<close>, in every profile.\<close>

definition remove_run :: "nat \<Rightarrow> Profile_t list \<Rightarrow> Profile_t list" where
  "remove_run b Prof =
     (let n = nat (NBin (Prof ! 0));
          b_up = find_b_up (NCell (Prof ! 0)) n (b + 1);
          stride = b_up - b;
          Prof1 = fold (\<lambda>b_up Pr. map (shift_bin stride b_up) Pr) [b + stride..<n] Prof
      in map (\<lambda>P. P\<lparr>NBin := NBin P - int stride\<rparr>) Prof1)"

lemma find_b_up_ge: "b_up \<le> find_b_up ncell n b_up"
proof (induction ncell n b_up rule: find_b_up.induct)
  case (1 ncell n b_up)
  show ?case
  proof (cases "b_up < n \<and> ncell ! b_up = 0")
    case True
    with 1 have "Suc b_up \<le> find_b_up ncell n (Suc b_up)" by simp
    with True show ?thesis by (subst find_b_up.simps) simp
  next
    case False
    then show ?thesis by (subst find_b_up.simps) auto
  qed
qed

lemma fold_map_shift_NBin:
  "map NBin (fold (\<lambda>b_up Pr. map (shift_bin stride b_up) Pr) bs Prof) = map NBin Prof"
  by (induction bs arbitrary: Prof) (simp_all add: shift_bin_def comp_def)

lemma fold_map_shift_length:
  "length (fold (\<lambda>b_up Pr. map (shift_bin stride b_up) Pr) bs Prof) = length Prof"
  by (induction bs arbitrary: Prof) simp_all

lemma remove_run_NBin:
  "map NBin (remove_run b Prof)
   = map (\<lambda>P. NBin P - int (find_b_up (NCell (Prof ! 0)) (nat (NBin (Prof ! 0))) (b + 1) - b)) Prof"
proof -
  have "map NBin (remove_run b Prof)
        = map (\<lambda>n. n - int (find_b_up (NCell (Prof ! 0)) (nat (NBin (Prof ! 0))) (b + 1) - b))
            (map NBin (fold (\<lambda>b_up Pr. map (shift_bin
               (find_b_up (NCell (Prof ! 0)) (nat (NBin (Prof ! 0))) (b + 1) - b) b_up) Pr)
               [b + (find_b_up (NCell (Prof ! 0)) (nat (NBin (Prof ! 0))) (b + 1) - b)..<nat (NBin (Prof ! 0))] Prof))"
    by (simp add: remove_run_def Let_def comp_def)
  then show ?thesis by (simp add: fold_map_shift_NBin comp_def)
qed

lemma remove_run_NBin0:
  assumes "Prof \<noteq> []"
  shows "NBin (remove_run b Prof ! 0) < NBin (Prof ! 0)"
proof -
  have len: "0 < length (remove_run b Prof)"
    using assms by (simp add: remove_run_def Let_def fold_map_shift_length)
  have "NBin (remove_run b Prof ! 0) = map NBin (remove_run b Prof) ! 0"
    using len by simp
  also have "\<dots> = NBin (Prof ! 0) - int (find_b_up (NCell (Prof ! 0)) (nat (NBin (Prof ! 0))) (b + 1) - b)"
    using assms by (simp add: remove_run_NBin)
  finally show ?thesis
    using find_b_up_ge [of "b + 1" "NCell (Prof ! 0)" "nat (NBin (Prof ! 0))"] by simp
qed

text \<open>
  The loop of lines 410--440. After a run has been removed the counter is decreased
  and increased again, so the same \<open>b\<close> is looked at once more. The profile array
  is not empty here: \<^verbatim>\<open>Prof[0]\<close> has been read before.
\<close>

function remove_empty :: "nat \<Rightarrow> Profile_t list \<Rightarrow> Profile_t list" where
  "remove_empty b Prof =
     (if Prof \<noteq> [] \<and> int b < NBin (Prof ! 0) then
        (if NCell (Prof ! 0) ! b \<noteq> 0 then remove_empty (Suc b) Prof
         else remove_empty b (remove_run b Prof))
      else Prof)"
  by pat_completeness auto
termination
proof (relation "measure (\<lambda>(b, Prof). nat (NBin (Prof ! 0) - int b))")
  show "wf (measure (\<lambda>(b, Prof). nat (NBin (Prof ! 0) - int b)))" by simp
next
  fix b :: nat and Prof :: "Profile_t list"
  assume "Prof \<noteq> [] \<and> int b < NBin (Prof ! 0)"
  then show "((Suc b, Prof), (b, Prof)) \<in> measure (\<lambda>(b, Prof). nat (NBin (Prof ! 0) - int b))"
    by simp
next
  fix b :: nat and Prof :: "Profile_t list"
  assume a: "Prof \<noteq> [] \<and> int b < NBin (Prof ! 0)"
  then have "NBin (remove_run b Prof ! 0) < NBin (Prof ! 0)"
    by (simp add: remove_run_NBin0)
  with a show "((b, remove_run b Prof), (b, Prof)) \<in> measure (\<lambda>(b, Prof). nat (NBin (Prof ! 0) - int b))"
    by simp
qed

declare remove_empty.simps [simp del]

section \<open>Update of the maximum radius (lines 443--450)\<close>

text \<open>The two reads \<^verbatim>\<open>Radius[b - 1]\<close> and \<^verbatim>\<open>Radius[b - 2]\<close> need \<open>2 \<le> b \<le> length\<close>.\<close>

definition update_MaxRadius :: "args_t \<Rightarrow> Profile_t \<Rightarrow> error + Profile_t" where
  "update_MaxRadius a P =
     (let b = NBin P in
      if b < 2 \<or> int (length (Radius P)) < b then Inl OutOfBounds
      else Inr (P\<lparr>MaxRadius :=
                   (if LogBin_in a
                    then rnd (rnd (SQR (Radius P ! nat (b - 1))) / Radius P ! nat (b - 2))
                    else rnd (rnd (2.0 * Radius P ! nat (b - 1)) - Radius P ! nat (b - 2)))\<rparr>))"

section \<open>The routine\<close>

text \<open>What every rank does after the broadcast (lines 407--450).\<close>

definition finish :: "args_t \<Rightarrow> Profile_t list \<Rightarrow> error + Profile_t list" where
  "finish a Prof =
     map_err (update_MaxRadius a) (if RemoveEmpty a then remove_empty 0 Prof else Prof)"

text \<open>
  \<^verbatim>\<open>Aux_ComputeProfile\<close> as all ranks run it together: \<open>ranks\<close> lists the ranks, the
  root (\<^verbatim>\<open>MPI_Rank == 0\<close>) first, and the result lists the profile arrays the ranks
  hold when the call returns. A serial build is a single rank. A fatal error on any
  rank ends the whole run.
\<close>

definition Aux_ComputeProfile :: "env_t \<Rightarrow> args_t \<Rightarrow> rank_t list \<Rightarrow> error + Profile_t list list" where
  "Aux_ComputeProfile env a ranks =
     (case map_err (local_profile env a) ranks of
        Inl e \<Rightarrow> Inl e
      | Inr locals \<Rightarrow>
          if locals = [] then Inr []
          else (let Root = normalize a (reduce_root locals)
                in map_err (\<lambda>Prof. finish a (bcast Root Prof)) locals))"

section \<open>Properties of the rounding\<close>

lemma nearest_even_of_int [simp]: "nearest_even (of_int z) = z"
  by (simp add: nearest_even_def)

lemma nearest_even_eqI: "\<bar>of_int n - y\<bar> < 1 / 2 \<Longrightarrow> nearest_even y = n"
proof -
  assume a: "\<bar>of_int n - y\<bar> < 1 / 2"
  show ?thesis
  proof (cases "of_int n \<le> y")
    case True
    with a have "\<lfloor>y\<rfloor> = n" by (intro floor_unique) (auto simp: abs_if split: if_splits)
    with a True show ?thesis by (auto simp: nearest_even_def Let_def abs_if split: if_splits)
  next
    case False
    with a have "\<lfloor>y\<rfloor> = n - 1" by (intro floor_unique) (auto simp: abs_if split: if_splits)
    with a False show ?thesis by (auto simp: nearest_even_def Let_def abs_if split: if_splits)
  qed
qed

lemma nearest_even_ge: "of_int m \<le> y \<Longrightarrow> m \<le> nearest_even y"
proof -
  assume "of_int m \<le> y"
  then have "m \<le> \<lfloor>y\<rfloor>" by (simp add: le_floor_iff)
  then show ?thesis by (auto simp: nearest_even_def Let_def)
qed

lemma nearest_even_le: "y \<le> of_int m \<Longrightarrow> nearest_even y \<le> m"
proof -
  assume a: "y \<le> of_int m"
  show ?thesis
  proof (cases "y = of_int m")
    case True
    then show ?thesis by simp
  next
    case False
    with a have "y < of_int m" by simp
    then have "\<lfloor>y\<rfloor> < m" by (simp add: floor_less_iff)
    then show ?thesis by (auto simp: nearest_even_def Let_def)
  qed
qed

lemma powr_powi: "2 powr (of_int k) = (2::real) powi k"
  by (simp add: powr_real_of_int')

lemma powr_powi_Suc: "2 powr (of_int k + 1) = (2::real) powi (k + 1)"
  using powr_powi [of "k + 1"] by simp

lemma binade:
  assumes "x \<noteq> 0"
  shows "2 powi \<lfloor>log 2 \<bar>x\<bar>\<rfloor> \<le> \<bar>x\<bar>" and "\<bar>x\<bar> < 2 powi (\<lfloor>log 2 \<bar>x\<bar>\<rfloor> + 1)"
proof -
  from assms have p: "0 < \<bar>x\<bar>" by simp
  have "2 powr (of_int \<lfloor>log 2 \<bar>x\<bar>\<rfloor>) \<le> \<bar>x\<bar> \<and> \<bar>x\<bar> < 2 powr (of_int (\<lfloor>log 2 \<bar>x\<bar>\<rfloor> + 1))"
    using floor_log_eq_powr_iff [OF p, of 2 "\<lfloor>log 2 \<bar>x\<bar>\<rfloor>"] by simp
  then show "2 powi \<lfloor>log 2 \<bar>x\<bar>\<rfloor> \<le> \<bar>x\<bar>" and "\<bar>x\<bar> < 2 powi (\<lfloor>log 2 \<bar>x\<bar>\<rfloor> + 1)"
    by (simp_all add: powr_powi powr_powi_Suc)
qed

lemma binade_unique:
  assumes "2 powi e \<le> \<bar>x\<bar>" and "\<bar>x\<bar> < 2 powi (e + 1)"
  shows "\<lfloor>log 2 \<bar>x\<bar>\<rfloor> = e"
proof -
  have "(0::real) < 2 powi e" by simp
  with assms have p: "0 < \<bar>x\<bar>" by linarith
  show ?thesis
    using assms by (subst floor_log_eq_powr_iff [OF p]) (simp_all add: powr_powi powr_powi_Suc)
qed

text \<open>Rounding a value whose binade and nearest multiple are known.\<close>

lemma rnd_eqI:
  assumes "2 powi e \<le> \<bar>x\<bar>" and "\<bar>x\<bar> < 2 powi (e + 1)"
    and "\<bar>of_int n - \<bar>x\<bar> / 2 powi (e - 52)\<bar> < 1 / 2"
  shows "rnd x = sgn x * (of_int n * 2 powi (e - 52))"
proof -
  have "(0::real) < 2 powi e" by simp
  with assms(1) have "0 < \<bar>x\<bar>" by linarith
  then have nz: "x \<noteq> 0" by simp
  from binade_unique [OF assms(1,2)] nearest_even_eqI [OF assms(3)] nz
  show ?thesis by (simp add: rnd_def Let_def)
qed

lemma rnd_0 [simp]: "rnd 0 = 0"
  by (simp add: rnd_def)

lemma rnd_minus [simp]: "rnd (- x) = - rnd x"
  by (simp add: rnd_def Let_def)

lemma nearest_even_mono:
  assumes "y1 \<le> y2"
  shows "nearest_even y1 \<le> nearest_even y2"
proof (cases "\<lfloor>y1\<rfloor> = \<lfloor>y2\<rfloor>")
  case True
  with assms show ?thesis by (auto simp: nearest_even_def Let_def)
next
  case False
  with assms have "\<lfloor>y1\<rfloor> < \<lfloor>y2\<rfloor>" using floor_mono [OF assms] by simp
  moreover have "nearest_even y1 \<le> \<lfloor>y1\<rfloor> + 1" by (auto simp: nearest_even_def Let_def)
  moreover have "\<lfloor>y2\<rfloor> \<le> nearest_even y2" by (auto simp: nearest_even_def Let_def)
  ultimately show ?thesis by simp
qed

text \<open>The rounded value stays in the closure of the binade of its argument.\<close>

lemma rnd_binade:
  assumes "0 < x"
  shows "2 powi \<lfloor>log 2 x\<rfloor> \<le> rnd x" and "rnd x \<le> 2 powi (\<lfloor>log 2 x\<rfloor> + 1)"
proof -
  let ?e = "\<lfloor>log 2 x\<rfloor>"
  let ?q = "(2::real) powi (?e - 52)"
  have q: "0 < ?q" by simp
  from assms have nz: "x \<noteq> 0" and ax: "\<bar>x\<bar> = x" by simp_all
  from binade [OF nz] have b: "2 powi ?e \<le> x" "x < 2 powi (?e + 1)" by (simp_all add: ax)
  have r: "rnd x = of_int (nearest_even (x / ?q)) * ?q"
    using assms by (simp add: rnd_def Let_def)
  have lo: "(2::real) powi ?e = of_int (2 ^ 52) * ?q"
    by (simp add: power_int_diff)
  have hi: "(2::real) powi (?e + 1) = of_int (2 ^ 53) * ?q"
    by (simp add: power_int_diff power_int_add)
  from b(1) q have "of_int (2 ^ 52) \<le> x / ?q" unfolding lo by (simp add: pos_le_divide_eq)
  then have "2 ^ 52 \<le> nearest_even (x / ?q)" by (rule nearest_even_ge)
  then have "of_int (2 ^ 52) * ?q \<le> of_int (nearest_even (x / ?q)) * ?q"
    using q by (intro mult_right_mono) simp_all
  then show "2 powi ?e \<le> rnd x" unfolding r lo .
  from b(2) q have "x / ?q \<le> of_int (2 ^ 53)" unfolding hi by (simp add: pos_divide_le_eq)
  then have "nearest_even (x / ?q) \<le> 2 ^ 53" by (rule nearest_even_le)
  then have "of_int (nearest_even (x / ?q)) * ?q \<le> of_int (2 ^ 53) * ?q"
    using q by (intro mult_right_mono) simp_all
  then show "rnd x \<le> 2 powi (?e + 1)" unfolding r hi .
qed

lemma rnd_pos: "0 < x \<Longrightarrow> 0 < rnd x"
proof -
  assume x: "0 < x"
  have "(0::real) < 2 powi \<lfloor>log 2 x\<rfloor>" by simp
  with rnd_binade(1) [OF x] show ?thesis by linarith
qed

lemma rnd_mono_pos:
  assumes x: "0 < x" and xy: "x \<le> y"
  shows "rnd x \<le> rnd y"
proof -
  from x xy have y: "0 < y" by simp
  let ?ex = "\<lfloor>log 2 x\<rfloor>" and ?ey = "\<lfloor>log 2 y\<rfloor>"
  have le: "?ex \<le> ?ey" using x xy by (intro floor_mono) simp
  show ?thesis
  proof (cases "?ex = ?ey")
    case True
    let ?q = "(2::real) powi (?ex - 52)"
    have q: "0 < ?q" by simp
    have "x / ?q \<le> y / ?q" using xy q by (simp add: divide_right_mono)
    then have "nearest_even (x / ?q) \<le> nearest_even (y / ?q)" by (rule nearest_even_mono)
    then have "of_int (nearest_even (x / ?q)) * ?q \<le> of_int (nearest_even (y / ?q)) * ?q"
      using q by (intro mult_right_mono) simp_all
    then show ?thesis using x y True by (simp add: rnd_def Let_def)
  next
    case False
    with le have "?ex + 1 \<le> ?ey" by simp
    then have "(2::real) powi (?ex + 1) \<le> 2 powi ?ey" by (intro power_int_increasing) simp_all
    with rnd_binade(2) [OF x] rnd_binade(1) [OF y] show ?thesis by linarith
  qed
qed

lemma rnd_mono: "x \<le> y \<Longrightarrow> rnd x \<le> rnd y"
proof -
  assume xy: "x \<le> y"
  consider "0 < x" | "x \<le> 0" "0 \<le> y" | "y < 0" by linarith
  then show ?thesis
  proof cases
    case 1
    then show ?thesis using xy by (rule rnd_mono_pos)
  next
    case 2
    have "rnd x \<le> 0"
    proof (cases "x = 0")
      case False
      with 2 have "0 < - x" by simp
      from rnd_pos [OF this] show ?thesis by (simp add: rnd_minus)
    qed simp
    moreover have "0 \<le> rnd y"
    proof (cases "y = 0")
      case False
      with 2 have "0 < y" by simp
      from rnd_pos [OF this] show ?thesis by simp
    qed simp
    ultimately show ?thesis by simp
  next
    case 3
    then have "0 < - y" "- y \<le> - x" using xy by simp_all
    from rnd_mono_pos [OF this] show ?thesis by (simp add: rnd_minus)
  qed
qed

text \<open>Scaling by a power of two is exact.\<close>

lemma rnd_scale: "rnd (x * 2 powi k) = rnd x * 2 powi k"
proof (cases "x = 0")
  case True
  then show ?thesis by simp
next
  case False
  let ?e = "\<lfloor>log 2 \<bar>x\<bar>\<rfloor>"
  have p: "(0::real) < 2 powi k" by simp
  from binade [OF False] have b: "2 powi ?e \<le> \<bar>x\<bar>" "\<bar>x\<bar> < 2 powi (?e + 1)" .
  have a: "\<bar>x * 2 powi k\<bar> = \<bar>x\<bar> * 2 powi k" by (simp add: abs_mult)
  have "\<lfloor>log 2 \<bar>x * 2 powi k\<bar>\<rfloor> = ?e + k"
  proof (rule binade_unique)
    show "2 powi (?e + k) \<le> \<bar>x * 2 powi k\<bar>"
      unfolding a using b(1) p by (simp add: power_int_add)
    show "\<bar>x * 2 powi k\<bar> < 2 powi (?e + k + 1)"
      unfolding a using b(2) p by (simp add: power_int_add)
  qed
  moreover have "\<bar>x\<bar> * 2 powi k / 2 powi (?e + k - 52) = \<bar>x\<bar> / 2 powi (?e - 52)"
    by (simp add: power_int_add power_int_diff)
  moreover have "(2::real) powi (?e + k - 52) = 2 powi (?e - 52) * 2 powi k"
    by (simp add: power_int_add power_int_diff)
  moreover have "sgn (x * 2 powi k) = sgn x" by (simp add: sgn_mult)
  ultimately show ?thesis using False by (simp add: rnd_def Let_def a)
qed

text \<open>An integer below \<open>2^53\<close> in absolute value is a double.\<close>

lemma rnd_of_int:
  assumes "\<bar>m\<bar> < 2 ^ 53"
  shows "rnd (of_int m) = of_int m"
proof (cases "m = 0")
  case True
  then show ?thesis by simp
next
  case False
  let ?x = "of_int m :: real"
  let ?e = "\<lfloor>log 2 \<bar>?x\<bar>\<rfloor>"
  from False have nz: "?x \<noteq> 0" by simp
  from binade(1) [OF nz] have b: "2 powi ?e \<le> \<bar>?x\<bar>" .
  from False have "1 \<le> \<bar>m\<bar>" by simp
  then have "(1::real) \<le> \<bar>?x\<bar>" by (metis of_int_1_le_iff of_int_abs)
  then have e0: "0 \<le> ?e" by simp
  have "real_of_int \<bar>m\<bar> < real_of_int (2 ^ 53)" using assms by (simp only: of_int_less_iff)
  then have lt: "\<bar>?x\<bar> < 2 powi 53" by simp
  have e52: "?e \<le> 52"
  proof (rule ccontr)
    assume "\<not> ?e \<le> 52"
    then have "53 \<le> ?e" by simp
    then have "(2::real) powi 53 \<le> 2 powi ?e" by (intro power_int_increasing) simp_all
    with b lt show False by linarith
  qed
  define k where "k = nat (52 - ?e)"
  have ek: "?e - 52 = - int k" using e52 by (simp add: k_def)
  have q: "(2::real) powi (?e - 52) = inverse (2 ^ k)"
    unfolding ek by (simp add: power_int_minus)
  have "\<bar>?x\<bar> / 2 powi (?e - 52) = of_int (\<bar>m\<bar> * 2 ^ k)"
    unfolding q by (simp add: divide_inverse)
  then have "nearest_even (\<bar>?x\<bar> / 2 powi (?e - 52)) = \<bar>m\<bar> * 2 ^ k"
    by (simp only: nearest_even_of_int)
  then have "rnd ?x = sgn ?x * (of_int (\<bar>m\<bar> * 2 ^ k) * inverse (2 ^ k))"
    using nz by (simp add: rnd_def Let_def q)
  also have "\<dots> = sgn ?x * \<bar>?x\<bar>" by simp
  also have "\<dots> = ?x" by (simp add: sgn_mult_abs)
  finally show ?thesis .
qed

lemma rnd_dyadic: "\<bar>m\<bar> < 2 ^ 53 \<Longrightarrow> rnd (of_int m * 2 powi k) = of_int m * 2 powi k"
  by (simp add: rnd_scale rnd_of_int)

lemma rnd_numeral [simp]: "numeral n < (2::int) ^ 53 \<Longrightarrow> rnd (numeral n) = numeral n"
  using rnd_of_int [of "numeral n"] by simp

lemma rnd_1 [simp]: "rnd 1 = 1"
  using rnd_of_int [of 1] by simp

lemma half_powi: "(2::real) powi (- 1) = 1 / 2"
  by (simp add: power_int_minus)

lemma rnd_half [simp]: "numeral n < (2::int) ^ 53 \<Longrightarrow> rnd (numeral n / 2) = numeral n / 2"
  using rnd_dyadic [of "numeral n" "- 1"] unfolding half_powi by simp

lemma rnd_one_half [simp]: "rnd (1 / 2) = 1 / 2"
  using rnd_dyadic [of 1 "- 1"] unfolding half_powi by simp

lemma rnd_nonneg: "0 \<le> x \<Longrightarrow> 0 \<le> rnd x"
  using rnd_mono [of 0 x] by simp

lemma rnd_ge_1: "1 \<le> x \<Longrightarrow> 1 \<le> rnd x"
  using rnd_mono [of 1 x] by simp

lemma rnd_double: "rnd (2 * x) = 2 * rnd x"
  using rnd_scale [of x 1] by (simp add: mult.commute)

section \<open>Properties of the normalisation\<close>

text \<open>The value the normalisation stores at a bin.\<close>

definition normalized_value :: "quantity \<Rightarrow> int \<Rightarrow> real \<Rightarrow> real \<Rightarrow> real" where
  "normalized_value quant ncell d w =
     (if ncell > 0 then
        (if quant = VRAD then (if w > 0 then d / w else d)
         else if (\<exists>x. quant = OtherQuantity x) then d
         else d / w)
      else d)"

lemma normalize_bin_frame:
  "Weight (normalize_bin q b P) = Weight P \<and> NCell (normalize_bin q b P) = NCell P
   \<and> NBin (normalize_bin q b P) = NBin P \<and> Radius (normalize_bin q b P) = Radius P
   \<and> MaxRadius (normalize_bin q b P) = MaxRadius P \<and> LogBin (normalize_bin q b P) = LogBin P
   \<and> LogBinRatio (normalize_bin q b P) = LogBinRatio P \<and> Center (normalize_bin q b P) = Center P
   \<and> length (Data (normalize_bin q b P)) = length (Data P)"
  by (cases q) (simp_all add: normalize_bin_def)

lemma normalize_bin_Data:
  "Data (normalize_bin q b P)
   = (Data P)[b := normalized_value q (NCell P ! b) (Data P ! b) (Weight P ! b)]"
  by (cases q) (simp_all add: normalize_bin_def normalized_value_def)

lemma fold_normalize_bin_frame:
  "Weight (fold (normalize_bin q) bs P) = Weight P \<and> NCell (fold (normalize_bin q) bs P) = NCell P
   \<and> NBin (fold (normalize_bin q) bs P) = NBin P \<and> Radius (fold (normalize_bin q) bs P) = Radius P
   \<and> MaxRadius (fold (normalize_bin q) bs P) = MaxRadius P
   \<and> LogBin (fold (normalize_bin q) bs P) = LogBin P
   \<and> LogBinRatio (fold (normalize_bin q) bs P) = LogBinRatio P
   \<and> Center (fold (normalize_bin q) bs P) = Center P
   \<and> length (Data (fold (normalize_bin q) bs P)) = length (Data P)"
  by (induction bs arbitrary: P) (simp_all add: normalize_bin_frame)

lemma fold_normalize_bin_Data:
  "b < length (Data P) \<Longrightarrow>
   Data (fold (normalize_bin q) [0..<n] P) ! b
   = (if b < n then normalized_value q (NCell P ! b) (Data P ! b) (Weight P ! b) else Data P ! b)"
proof (induction n)
  case 0
  then show ?case by simp
next
  case (Suc n)
  let ?Q = "fold (normalize_bin q) [0..<n] P"
  have fr: "Weight ?Q = Weight P" "NCell ?Q = NCell P" "length (Data ?Q) = length (Data P)"
    using fold_normalize_bin_frame [of q "[0..<n]" P] by simp_all
  have "Data (fold (normalize_bin q) [0..<Suc n] P) = Data (normalize_bin q n ?Q)"
    by simp
  also have "\<dots> = (Data ?Q)[n := normalized_value q (NCell P ! n) (Data ?Q ! n) (Weight P ! n)]"
    by (simp add: normalize_bin_Data fr)
  finally have eq: "Data (fold (normalize_bin q) [0..<Suc n] P)
     = (Data ?Q)[n := normalized_value q (NCell P ! n) (Data ?Q ! n) (Weight P ! n)]" .
  show ?case
  proof (cases "b = n")
    case True
    with Suc show ?thesis unfolding eq by (simp add: fr)
  next
    case False
    with Suc show ?thesis unfolding eq by (simp add: fr)
  qed
qed

lemma normalize_nth:
  "p < length Prof \<Longrightarrow>
   normalize a Prof ! p = fold (normalize_bin (TVar a ! p)) [0..<nat (NBin (Prof ! 0))] (Prof ! p)"
  by (simp add: normalize_def)

lemma normalize_length: "length (normalize a Prof) = length Prof"
  by (simp add: normalize_def)

text \<open>
  What the normalisation stores in a bin: a bin \<open>b\<close> with \<open>NCell[b] > 0\<close> of a plain
  volume-weighted quantity (density, energy, the momenta, pressure, internal energy) gets
  \<open>Data[b] / Weight[b]\<close> whatever the weight is; for the radial velocity it gets
  \<open>Data[b] / Weight[b]\<close> only if \<open>Weight[b] > 0\<close> and keeps the accumulated sum
  otherwise; a bin with \<open>NCell[b] = 0\<close> keeps its data, and the weights and the cell
  counts of all bins are left as they are.
\<close>

lemma normalize_Data_nth:
  assumes "p < length Prof" and "b < nat (NBin (Prof ! 0))" and "b < length (Data (Prof ! p))"
  shows "Data (normalize a Prof ! p) ! b
         = (if NCell (Prof ! p) ! b > 0 then
              (if TVar a ! p \<in> {DENS, ENGY, MOMX, MOMY, MOMZ, PRESSURE, INTERNAL_ENGY}
               then Data (Prof ! p) ! b / Weight (Prof ! p) ! b
               else if TVar a ! p = VRAD \<and> Weight (Prof ! p) ! b > 0
               then Data (Prof ! p) ! b / Weight (Prof ! p) ! b
               else Data (Prof ! p) ! b)
            else Data (Prof ! p) ! b)
         \<and> Weight (normalize a Prof ! p) = Weight (Prof ! p)
         \<and> NCell (normalize a Prof ! p) = NCell (Prof ! p)"
proof -
  have "Data (normalize a Prof ! p) ! b
        = normalized_value (TVar a ! p) (NCell (Prof ! p) ! b) (Data (Prof ! p) ! b) (Weight (Prof ! p) ! b)"
    using assms by (simp add: normalize_nth fold_normalize_bin_Data)
  moreover have "Weight (normalize a Prof ! p) = Weight (Prof ! p)"
    "NCell (normalize a Prof ! p) = NCell (Prof ! p)"
    using assms(1) fold_normalize_bin_frame [of "TVar a ! p" "[0..<nat (NBin (Prof ! 0))]" "Prof ! p"]
    by (simp_all add: normalize_nth)
  ultimately show ?thesis
    by (cases "TVar a ! p") (simp_all add: normalized_value_def)
qed

section \<open>Properties of the bin geometry\<close>

text \<open>The quotient of line 97, as a \<^verbatim>\<open>double\<close>.\<close>

definition log_quotient :: "env_t \<Rightarrow> args_t \<Rightarrow> real" where
  "log_quotient env a =
     rnd (log_libm env (rnd (r_max_input a / dr_min a)) / log_libm env (LogBinRatio_in a))"

text \<open>The number of bins lines 97 and 103 compute, and whether the conversion and the
  addition of line 97 and the conversion of line 103 stay in the range of \<^verbatim>\<open>int\<close>.\<close>

definition geometry_NBin :: "env_t \<Rightarrow> args_t \<Rightarrow> int" where
  "geometry_NBin env a =
     (if LogBin_in a then trunc (log_quotient env a) + 2
      else \<lceil>rnd (r_max_input a / dr_min a)\<rceil>)"

definition geometry_fits :: "env_t \<Rightarrow> args_t \<Rightarrow> bool" where
  "geometry_fits env a =
     (if LogBin_in a
      then INT_MIN \<le> trunc (log_quotient env a) \<and> trunc (log_quotient env a) + 2 \<le> INT_MAX
      else INT_MIN \<le> \<lceil>rnd (r_max_input a / dr_min a)\<rceil>
           \<and> \<lceil>rnd (r_max_input a / dr_min a)\<rceil> \<le> INT_MAX)"

text \<open>The maximum radius lines 98 and 104 compute.\<close>

definition geometry_MaxRadius :: "env_t \<Rightarrow> args_t \<Rightarrow> real" where
  "geometry_MaxRadius env a =
     (if LogBin_in a
      then rnd (dr_min a * pow_libm env (LogBinRatio_in a) (of_int (geometry_NBin env a - 1)))
      else rnd (dr_min a * of_int (geometry_NBin env a)))"

text \<open>A profile as the geometry loop leaves it.\<close>

definition configured :: "env_t \<Rightarrow> args_t \<Rightarrow> Profile_t \<Rightarrow> Profile_t" where
  "configured env a P =
     (record_params a (P\<lparr>NBin := geometry_NBin env a, MaxRadius := geometry_MaxRadius env a\<rparr>))
       \<lparr>Radius := map (radius_of_bin env a) [0..<nat (geometry_NBin env a)],
        Data := replicate (nat (geometry_NBin env a)) 0,
        Weight := replicate (nat (geometry_NBin env a)) 0,
        NCell := replicate (nat (geometry_NBin env a)) 0\<rparr>"

lemma for_loop_append:
  "for_loop (xs @ ys) body s
   = (case for_loop xs body s of Inl e \<Rightarrow> Inl e | Inr s' \<Rightarrow> for_loop ys body s')"
  by (induction xs arbitrary: s) (simp_all split: sum.splits)

lemma trunc_of_int [simp]: "trunc (of_int n) = n"
  by (simp add: trunc_def)

lemma trunc_nonneg: "0 \<le> x \<Longrightarrow> trunc x = \<lfloor>x\<rfloor>"
  by (simp add: trunc_def)

lemma trunc_nonneg_ge: "0 \<le> x \<Longrightarrow> 0 \<le> trunc x"
  by (simp add: trunc_def)

lemma in_int_Inr: "INT_MIN \<le> i \<Longrightarrow> i \<le> INT_MAX \<Longrightarrow> in_int i = Inr i"
  by (simp add: in_int_def)

lemma in_int_cases: "in_int i = Inr j \<Longrightarrow> j = i \<and> INT_MIN \<le> i \<and> i \<le> INT_MAX"
  by (simp add: in_int_def split: if_splits)

lemma in_int_Inl: "in_int i = Inl e \<Longrightarrow> e = IntOverflow"
  by (simp add: in_int_def split: if_splits)

lemma set_NBin_MaxRadius_fits:
  "geometry_fits env a \<Longrightarrow>
   set_NBin_MaxRadius env a P
   = Inr (P\<lparr>NBin := geometry_NBin env a, MaxRadius := geometry_MaxRadius env a\<rparr>)"
  by (cases "LogBin_in a")
     (simp_all add: set_NBin_MaxRadius_def geometry_fits_def geometry_NBin_def geometry_MaxRadius_def
        log_quotient_def int_of_double_def in_int_def INT_MIN_def INT_MAX_def)

lemma set_NBin_MaxRadius_overflow:
  "\<not> geometry_fits env a \<Longrightarrow> set_NBin_MaxRadius env a P = Inl IntOverflow"
  by (cases "LogBin_in a")
     (auto simp: set_NBin_MaxRadius_def geometry_fits_def log_quotient_def int_of_double_def
        in_int_def INT_MIN_def INT_MAX_def)

lemma NBin_record_params: "NBin (record_params a P) = NBin P"
  by (simp add: record_params_def Let_def)

lemma NBin_configured: "NBin (configured env a P) = geometry_NBin env a"
  by (simp add: configured_def NBin_record_params)

lemma fill_Radius:
  "m \<le> length (Radius P) \<Longrightarrow>
   fold (\<lambda>b Q. Q\<lparr>Radius := (Radius Q)[b := f b]\<rparr>) [0..<m] P
   = P\<lparr>Radius := map f [0..<m] @ drop m (Radius P)\<rparr>"
proof (induction m)
  case 0
  then show ?case by simp
next
  case (Suc m)
  then have "m < length (Radius P)" by simp
  then have "(map f [0..<m] @ drop m (Radius P))[m := f m]
             = map f [0..<m] @ f m # drop (Suc m) (Radius P)"
    by (simp add: list_update_append Cons_nth_drop_Suc [symmetric])
  with Suc show ?case by simp
qed

lemma AllocateMemory_ok:
  "0 \<le> geometry_NBin env a \<Longrightarrow>
   AllocateMemory (record_params a (P\<lparr>NBin := geometry_NBin env a, MaxRadius := M\<rparr>))
   = Inr ((record_params a (P\<lparr>NBin := geometry_NBin env a, MaxRadius := M\<rparr>))
            \<lparr>Radius := replicate (nat (geometry_NBin env a)) 0,
             Data := replicate (nat (geometry_NBin env a)) 0,
             Weight := replicate (nat (geometry_NBin env a)) 0,
             NCell := replicate (nat (geometry_NBin env a)) 0\<rparr>)"
  by (simp add: AllocateMemory_def NBin_record_params)

lemma AllocateMemory_fails:
  "geometry_NBin env a < 0 \<Longrightarrow>
   AllocateMemory (record_params a (P\<lparr>NBin := geometry_NBin env a, MaxRadius := M\<rparr>))
   = Inl BadAllocation"
  by (simp add: AllocateMemory_def NBin_record_params)

text \<open>One iteration, when the profiles before \<open>p\<close> have been configured.\<close>

lemma geometry_p_step:
  assumes f: "geometry_fits env a" and n: "0 \<le> geometry_NBin env a" and p: "p < length Prof"
    and first: "0 < p \<Longrightarrow> NBin (Prof ! 0) = geometry_NBin env a"
  shows "geometry_p env a p Prof = Inr (Prof[p := configured env a (Prof ! p)])"
proof -
  let ?A = "(record_params a ((Prof ! p)\<lparr>NBin := geometry_NBin env a,
                                         MaxRadius := geometry_MaxRadius env a\<rparr>))
            \<lparr>Radius := replicate (nat (geometry_NBin env a)) 0,
             Data := replicate (nat (geometry_NBin env a)) 0,
             Weight := replicate (nat (geometry_NBin env a)) 0,
             NCell := replicate (nat (geometry_NBin env a)) 0\<rparr>"
  have nA: "NBin ?A = geometry_NBin env a"
    by (simp add: NBin_record_params)
  have n0: "NBin (Prof[p := ?A] ! 0) = geometry_NBin env a"
  proof (cases "p = 0")
    case True
    with p nA show ?thesis by simp
  next
    case False
    with first show ?thesis by simp
  qed
  have "fold (\<lambda>b Q. Q\<lparr>Radius := (Radius Q)[b := radius_of_bin env a b]\<rparr>) [0..<nat (geometry_NBin env a)] ?A
        = ?A\<lparr>Radius := map (radius_of_bin env a) [0..<nat (geometry_NBin env a)]
                         @ drop (nat (geometry_NBin env a)) (Radius ?A)\<rparr>"
    by (rule fill_Radius) simp
  also have "\<dots> = configured env a (Prof ! p)"
    by (simp add: configured_def)
  finally have fill: "fold (\<lambda>b Q. Q\<lparr>Radius := (Radius Q)[b := radius_of_bin env a b]\<rparr>)
                        [0..<nat (geometry_NBin env a)] ?A = configured env a (Prof ! p)" .
  show ?thesis
    unfolding geometry_p_def set_NBin_MaxRadius_fits [OF f]
    by (simp add: AllocateMemory_ok [OF n] Let_def n0 fill)
qed

lemma geometry_loop:
  assumes f: "geometry_fits env a" and n: "0 \<le> geometry_NBin env a"
  shows "k \<le> length Prof \<Longrightarrow>
         for_loop [0..<k] (geometry_p env a) Prof
         = Inr (map (configured env a) (take k Prof) @ drop k Prof)"
proof (induction k)
  case 0
  then show ?case by simp
next
  case (Suc k)
  let ?S = "map (configured env a) (take k Prof) @ drop k Prof"
  have k: "k < length Prof" using Suc.prems by simp
  have len: "length ?S = length Prof" using k by simp
  have at_k: "?S ! k = Prof ! k" using k by (simp add: nth_append)
  have first: "0 < k \<Longrightarrow> NBin (?S ! 0) = geometry_NBin env a"
    using k by (simp add: nth_append NBin_configured)
  have step: "geometry_p env a k ?S = Inr (?S[k := configured env a (?S ! k)])"
    using f n len k first by (intro geometry_p_step) simp_all
  have upd: "?S[k := configured env a (Prof ! k)]
             = map (configured env a) (take (Suc k) Prof) @ drop (Suc k) Prof"
    using k by (simp add: take_Suc_conv_app_nth list_update_append Cons_nth_drop_Suc [symmetric])
  have "for_loop [0..<Suc k] (geometry_p env a) Prof
        = (case for_loop [0..<k] (geometry_p env a) Prof of Inl e \<Rightarrow> Inl e
           | Inr s' \<Rightarrow> for_loop [k] (geometry_p env a) s')"
    by (simp add: for_loop_append)
  also have "\<dots> = for_loop [k] (geometry_p env a) ?S"
    using Suc k by simp
  also have "\<dots> = Inr (?S[k := configured env a (Prof ! k)])"
    by (simp add: step at_k)
  finally show ?case by (simp only: upd)
qed

lemma geometry_ok:
  "geometry_fits env a \<Longrightarrow> 0 \<le> geometry_NBin env a \<Longrightarrow>
   geometry env a Prof = Inr (map (configured env a) Prof)"
  using geometry_loop [of env a "length Prof" Prof] by (simp add: geometry_def)

lemma geometry_fails:
  assumes "geometry_fits env a" and "geometry_NBin env a < 0" and "Prof \<noteq> []"
  shows "geometry env a Prof = Inl BadAllocation"
proof -
  from assms(3) have "[0..<length Prof] = 0 # [1..<length Prof]"
    by (simp add: upt_conv_Cons)
  then show ?thesis
    using assms(2)
    by (simp add: geometry_def geometry_p_def set_NBin_MaxRadius_fits [OF assms(1)]
          AllocateMemory_fails)
qed

lemma geometry_overflow:
  assumes "\<not> geometry_fits env a" and "Prof \<noteq> []"
  shows "geometry env a Prof = Inl IntOverflow"
proof -
  from assms(2) have "[0..<length Prof] = 0 # [1..<length Prof]"
    by (simp add: upt_conv_Cons)
  then show ?thesis
    by (simp add: geometry_def geometry_p_def set_NBin_MaxRadius_overflow [OF assms(1)])
qed

lemma configured_fields:
  "NBin (configured env a P) = geometry_NBin env a"
  "MaxRadius (configured env a P) = geometry_MaxRadius env a"
  "Radius (configured env a P) = map (radius_of_bin env a) [0..<nat (geometry_NBin env a)]"
  "Data (configured env a P) = replicate (nat (geometry_NBin env a)) 0"
  "Weight (configured env a P) = replicate (nat (geometry_NBin env a)) 0"
  "NCell (configured env a P) = replicate (nat (geometry_NBin env a)) 0"
  "LogBin (configured env a P) = LogBin_in a"
  by (simp_all add: configured_def record_params_def Let_def)

text \<open>An unconfigured profile object, as a caller passes it.\<close>

definition fresh_Profile :: Profile_t where
  "fresh_Profile =
     \<lparr>NBin = - 1, LogBin = False, LogBinRatio = 0, MaxRadius = 0, Center = (\<lambda>d. 0),
      Radius = [], Data = [], Weight = [], NCell = []\<rparr>"

text \<open>
  A build with the debug checks, one OpenMP thread, one level, patches of a single cell
  and periodic boundaries, on a C library whose \<^verbatim>\<open>log\<close> and \<^verbatim>\<open>pow\<close> are correctly
  rounded.
\<close>

definition run_env :: env_t where
  "run_env =
     \<lparr>GAMER_DEBUG = True, MHD = False, NT = 1, PS1 = 1, TOP_LEVEL = 0, GAMMA = 5 / 3,
      NULL_REAL = 0, OPT__BC_FLU = (\<lambda>f. 1), BC_FLU_PERIODIC = 1,
      Hydro_GetPressure = (\<lambda>d mx my mz e g c m b. 0),
      MHD_GetCellCenteredBField = (\<lambda>bx by bz nx ny nz i j k d. 0),
      log_libm = (\<lambda>x. rnd (ln x)), pow_libm = (\<lambda>x y. rnd (x powr y))\<rparr>"

text \<open>
  Claim C4, as amended. With linear bins, \<open>r_max > 0\<close>, \<open>dr_min > 0\<close> and a number of
  bins \<open>ceil(r_max / dr_min)\<close> inside the range of \<^verbatim>\<open>int\<close>, the geometry loop gives
  every profile \<open>NBin = ceil(r_max / dr_min)\<close> and the maximum radius \<open>dr_min * NBin\<close>
  and fills \<open>Radius[b] = (b + 0.5) * dr_min\<close> for every bin, every quotient, product
  and sum rounded to \<^verbatim>\<open>double\<close>.
\<close>

theorem geometry_linear:
  assumes "\<not> LogBin_in a" and "0 < r_max_input a" and "0 < dr_min a"
    and "\<lceil>rnd (r_max_input a / dr_min a)\<rceil> \<le> INT_MAX"
  shows "\<exists>Prof'. geometry env a Prof = Inr Prof' \<and> length Prof' = length Prof
           \<and> (\<forall>p<length Prof.
                 NBin (Prof' ! p) = \<lceil>rnd (r_max_input a / dr_min a)\<rceil>
                 \<and> MaxRadius (Prof' ! p)
                   = rnd (dr_min a * of_int \<lceil>rnd (r_max_input a / dr_min a)\<rceil>)
                 \<and> length (Radius (Prof' ! p)) = nat \<lceil>rnd (r_max_input a / dr_min a)\<rceil>
                 \<and> (\<forall>b<nat \<lceil>rnd (r_max_input a / dr_min a)\<rceil>.
                       Radius (Prof' ! p) ! b = rnd (rnd (real b + 0.5) * dr_min a)))"
proof -
  have n: "geometry_NBin env a = \<lceil>rnd (r_max_input a / dr_min a)\<rceil>"
    using assms(1) by (simp add: geometry_NBin_def)
  have "0 < r_max_input a / dr_min a" using assms by simp
  then have "0 < rnd (r_max_input a / dr_min a)" by (rule rnd_pos)
  then have pos: "0 < geometry_NBin env a" by (simp add: n)
  then have f: "geometry_fits env a"
    using assms(1,4) by (simp add: geometry_fits_def n [symmetric] INT_MIN_def)
  have g: "geometry env a Prof = Inr (map (configured env a) Prof)"
    using pos f by (simp add: geometry_ok)
  show ?thesis
    unfolding g using assms(1)
    by (simp add: configured_fields n geometry_MaxRadius_def radius_of_bin_def)
qed

theorem geometry_linear_witness:
  "\<exists>Prof'. geometry run_env
             \<lparr>Center_in = (\<lambda>d. 0), r_max_input = 5 / 2, dr_min = 1, LogBin_in = False,
              LogBinRatio_in = 0, RemoveEmpty = False, TVar = [DENS], SingleLv = - 1\<rparr>
             [fresh_Profile] = Inr Prof'
         \<and> NBin (Prof' ! 0) = 3 \<and> MaxRadius (Prof' ! 0) = 3 \<and> Radius (Prof' ! 0) ! 2 = 5 / 2"
proof -
  let ?a = "\<lparr>Center_in = (\<lambda>d. 0), r_max_input = 5 / 2, dr_min = 1, LogBin_in = False,
             LogBinRatio_in = 0, RemoveEmpty = False, TVar = [DENS], SingleLv = - 1\<rparr>"
  have c: "\<lceil>rnd (r_max_input ?a / dr_min ?a)\<rceil> = 3" by simp
  have h: "\<lceil>rnd (r_max_input ?a / dr_min ?a)\<rceil> \<le> INT_MAX" unfolding c by (simp add: INT_MAX_def)
  have r: "rnd (rnd (real (2::nat) + 0.5) * dr_min ?a) = 5 / 2" by simp
  from geometry_linear [of ?a run_env "[fresh_Profile]", OF _ _ _ h]
  obtain Prof' where "geometry run_env ?a [fresh_Profile] = Inr Prof'"
    and "\<forall>p<1. NBin (Prof' ! p) = 3 \<and> MaxRadius (Prof' ! p) = rnd (dr_min ?a * of_int 3)
              \<and> (\<forall>b<3. Radius (Prof' ! p) ! b = rnd (rnd (real b + 0.5) * dr_min ?a))"
    unfolding c by auto
  then have "geometry run_env ?a [fresh_Profile] = Inr Prof'" "NBin (Prof' ! 0) = 3"
    "MaxRadius (Prof' ! 0) = 3" "Radius (Prof' ! 0) ! 2 = rnd (rnd (real (2::nat) + 0.5) * dr_min ?a)"
    by simp_all
  then show ?thesis unfolding r by (intro exI [of _ Prof']) simp
qed

text \<open>
  Claim C4 as stated fails where the number of bins leaves the range of \<^verbatim>\<open>int\<close>: for
  \<open>r_max = 3000000000\<close> and \<open>dr_min = 1\<close> the quotient and its ceiling are
  \<open>3000000000\<close>, above \<open>INT_MAX = 2147483647\<close>, and no profile is configured.
\<close>

theorem geometry_linear_int_counterexample:
  "geometry run_env
     \<lparr>Center_in = (\<lambda>d. 0), r_max_input = 3000000000, dr_min = 1, LogBin_in = False,
      LogBinRatio_in = 0, RemoveEmpty = False, TVar = [DENS], SingleLv = - 1\<rparr>
     [fresh_Profile] = Inl IntOverflow
   \<and> \<lceil>rnd (3000000000 / 1)\<rceil> = (3000000000 :: int) \<and> INT_MAX < 3000000000"
proof -
  let ?a = "\<lparr>Center_in = (\<lambda>d. 0), r_max_input = 3000000000, dr_min = 1, LogBin_in = False,
             LogBinRatio_in = 0, RemoveEmpty = False, TVar = [DENS], SingleLv = - 1\<rparr>"
  have "\<not> geometry_fits run_env ?a" by (simp add: geometry_fits_def INT_MAX_def)
  then have "geometry run_env ?a [fresh_Profile] = Inl IntOverflow"
    by (rule geometry_overflow) simp
  then show ?thesis by (simp add: INT_MAX_def)
qed

text \<open>
  Claim C3, as amended. With logarithmic bins the code computes, in \<^verbatim>\<open>double\<close>, the
  quotient \<open>q = log(r_max/dr_min) / log(ratio)\<close> and the number of bins \<open>int( q ) + 2\<close>,
  where the conversion truncates toward zero: it is \<open>floor(q) + 2\<close> when \<open>q\<close> is not
  negative. A number outside the range of \<^verbatim>\<open>int\<close> is undefined and a negative number
  cannot be allocated. Otherwise every profile gets this \<open>NBin\<close>, the maximum radius
  \<open>dr_min * ratio^(NBin - 1)\<close> and \<open>Radius[b] = dr_min * ratio^(b - 0.5)\<close> for every
  bin, with the powers of the C library and the products rounded to \<^verbatim>\<open>double\<close>.
\<close>

theorem geometry_log:
  assumes "LogBin_in a" and "0 < r_max_input a" and "0 < dr_min a" and "1 < LogBinRatio_in a"
  shows "let q = rnd (log_libm env (rnd (r_max_input a / dr_min a)) / log_libm env (LogBinRatio_in a));
             n = trunc q + 2
         in (0 \<le> q \<longrightarrow> n = \<lfloor>q\<rfloor> + 2)
            \<and> (if Prof \<noteq> [] \<and> (trunc q < INT_MIN \<or> INT_MAX < n)
               then geometry env a Prof = Inl IntOverflow
               else if Prof \<noteq> [] \<and> n < 0 then geometry env a Prof = Inl BadAllocation
               else \<exists>Prof'. geometry env a Prof = Inr Prof' \<and> length Prof' = length Prof
                      \<and> (\<forall>p<length Prof.
                            NBin (Prof' ! p) = n
                            \<and> MaxRadius (Prof' ! p)
                              = rnd (dr_min a * pow_libm env (LogBinRatio_in a) (of_int (n - 1)))
                            \<and> length (Radius (Prof' ! p)) = nat n
                            \<and> (\<forall>b<nat n. Radius (Prof' ! p) ! b
                                 = rnd (dr_min a * pow_libm env (LogBinRatio_in a)
                                                     (rnd (real b - 0.5))))))"
proof -
  define q where "q = rnd (log_libm env (rnd (r_max_input a / dr_min a)) / log_libm env (LogBinRatio_in a))"
  define n where "n = trunc q + 2"
  have lq: "log_quotient env a = q" by (simp add: log_quotient_def q_def)
  have n: "geometry_NBin env a = n"
    using assms(1) by (simp add: geometry_NBin_def lq n_def)
  have fits: "geometry_fits env a = (\<not> (trunc q < INT_MIN \<or> INT_MAX < n))"
    using assms(1) by (auto simp: geometry_fits_def lq n_def)
  have floor: "0 \<le> q \<longrightarrow> n = \<lfloor>q\<rfloor> + 2"
    by (simp add: n_def trunc_nonneg)
  have rest: "if Prof \<noteq> [] \<and> (trunc q < INT_MIN \<or> INT_MAX < n)
        then geometry env a Prof = Inl IntOverflow
        else if Prof \<noteq> [] \<and> n < 0 then geometry env a Prof = Inl BadAllocation
        else \<exists>Prof'. geometry env a Prof = Inr Prof' \<and> length Prof' = length Prof
               \<and> (\<forall>p<length Prof.
                     NBin (Prof' ! p) = n
                     \<and> MaxRadius (Prof' ! p)
                       = rnd (dr_min a * pow_libm env (LogBinRatio_in a) (of_int (n - 1)))
                     \<and> length (Radius (Prof' ! p)) = nat n
                     \<and> (\<forall>b<nat n. Radius (Prof' ! p) ! b
                          = rnd (dr_min a * pow_libm env (LogBinRatio_in a) (rnd (real b - 0.5)))))"
  proof (cases "Prof = []")
    case True
    then show ?thesis by (simp add: geometry_def)
  next
    case ne: False
    show ?thesis
    proof (cases "geometry_fits env a")
      case False
      with ne show ?thesis using fits by (simp add: geometry_overflow)
    next
      case f: True
      show ?thesis
      proof (cases "n < 0")
        case True
        with ne f fits show ?thesis by (simp add: geometry_fails n)
      next
        case False
        then have g: "geometry env a Prof = Inr (map (configured env a) Prof)"
          using f by (simp add: geometry_ok n)
        show ?thesis
          unfolding g using False f fits assms(1)
          by (simp add: configured_fields n geometry_MaxRadius_def radius_of_bin_def)
      qed
    qed
  qed
  show ?thesis
    unfolding Let_def q_def [symmetric] n_def [symmetric] using floor rest by blast
qed

lemma ln_4: "ln (4::real) = 2 * ln 2"
proof -
  have "ln (4::real) = ln (2 ^ 2)" by simp
  also have "\<dots> = 2 * ln 2" by (simp only: ln_realpow)
  finally show ?thesis .
qed

lemma ln_2_pos: "0 < ln (2::real)"
  by simp

text \<open>The correctly rounded logarithms of 2, 4 and 1/2.\<close>

lemma rnd_ln_2_pos: "0 < rnd (ln 2)"
  by (rule rnd_pos) simp

lemma rnd_ln_4: "rnd (ln 4) = 2 * rnd (ln 2)"
  by (simp add: ln_4 rnd_double)

lemma rnd_ln_half: "rnd (ln (1 / 2)) = - rnd (ln 2)"
proof -
  have "ln (1 / 2 :: real) = - ln 2" by (simp add: ln_div)
  then show ?thesis by (simp add: rnd_minus)
qed

theorem geometry_log_witness:
  "\<exists>Prof'. geometry run_env
             \<lparr>Center_in = (\<lambda>d. 0), r_max_input = 4, dr_min = 1, LogBin_in = True,
              LogBinRatio_in = 2, RemoveEmpty = False, TVar = [DENS], SingleLv = - 1\<rparr>
             [fresh_Profile] = Inr Prof'
         \<and> NBin (Prof' ! 0) = 4 \<and> MaxRadius (Prof' ! 0) = 8"
proof -
  let ?a = "\<lparr>Center_in = (\<lambda>d. 0), r_max_input = 4, dr_min = 1, LogBin_in = True,
             LogBinRatio_in = 2, RemoveEmpty = False, TVar = [DENS], SingleLv = - 1\<rparr>"
  have q: "rnd (log_libm run_env (rnd (r_max_input ?a / dr_min ?a)) / log_libm run_env (LogBinRatio_in ?a))
           = 2"
    using rnd_ln_2_pos by (simp add: run_env_def rnd_ln_4)
  have p: "pow_libm run_env (LogBinRatio_in ?a) (of_int (4 - 1)) = 8"
    by (simp add: run_env_def)
  have "\<exists>Prof'. geometry run_env ?a [fresh_Profile] = Inr Prof'
          \<and> (\<forall>p<length [fresh_Profile]. NBin (Prof' ! p) = 4
                \<and> MaxRadius (Prof' ! p)
                  = rnd (dr_min ?a * pow_libm run_env (LogBinRatio_in ?a) (of_int (4 - 1))))"
    using geometry_log [of ?a run_env "[fresh_Profile]"] unfolding Let_def q
    by (auto simp: trunc_def INT_MIN_def INT_MAX_def)
  then obtain Prof' where "geometry run_env ?a [fresh_Profile] = Inr Prof'"
    and "NBin (Prof' ! 0) = 4"
    and "MaxRadius (Prof' ! 0) = rnd (dr_min ?a * pow_libm run_env (LogBinRatio_in ?a) (of_int (4 - 1)))"
    by auto
  then show ?thesis unfolding p by (intro exI [of _ Prof']) simp
qed

text \<open>
  Claim C3 as stated fails below \<open>dr_min\<close>: for \<open>r_max = 1\<close>, \<open>dr_min = 2\<close>,
  \<open>ratio = 4\<close> the quotient of the logarithms is \<open>- 1/2\<close>, which the conversion to
  \<^verbatim>\<open>int\<close> truncates to 0, so that \<open>NBin = 2\<close>, while \<open>floor(...) + 2 = 1\<close>.
\<close>

theorem geometry_log_floor_counterexample:
  "\<exists>Prof'. geometry run_env
             \<lparr>Center_in = (\<lambda>d. 0), r_max_input = 1, dr_min = 2, LogBin_in = True,
              LogBinRatio_in = 4, RemoveEmpty = False, TVar = [DENS], SingleLv = - 1\<rparr>
             [fresh_Profile] = Inr Prof'
         \<and> NBin (Prof' ! 0) = 2
         \<and> \<lfloor>rnd (log_libm run_env (rnd (1 / 2)) / log_libm run_env 4)\<rfloor> + 2 = 1"
proof -
  let ?a = "\<lparr>Center_in = (\<lambda>d. 0), r_max_input = 1, dr_min = 2, LogBin_in = True,
             LogBinRatio_in = 4, RemoveEmpty = False, TVar = [DENS], SingleLv = - 1\<rparr>"
  have "rnd (ln (1 / 2)) / rnd (ln 4) = - (1 / 2)"
    using rnd_ln_2_pos by (simp add: rnd_ln_4 rnd_ln_half)
  then have q: "rnd (log_libm run_env (rnd (1 / 2)) / log_libm run_env 4) = - (1 / 2)"
    by (simp add: run_env_def rnd_minus)
  have c: "\<lceil>- (1 / 2) :: real\<rceil> = 0" by (rule ceiling_unique) simp_all
  have f: "\<lfloor>- (1 / 2) :: real\<rfloor> = - 1" by (rule floor_unique) simp_all
  have lq: "log_quotient run_env ?a = - (1 / 2)"
    using q by (simp add: log_quotient_def)
  have n: "geometry_NBin run_env ?a = 2"
    by (simp add: geometry_NBin_def lq trunc_def c)
  have fits: "geometry_fits run_env ?a"
    by (simp add: geometry_fits_def lq trunc_def c INT_MIN_def INT_MAX_def)
  have "geometry run_env ?a [fresh_Profile] = Inr [configured run_env ?a fresh_Profile]"
    using geometry_ok [OF fits, of "[fresh_Profile]"] by (simp add: n)
  moreover have "\<lfloor>rnd (log_libm run_env (rnd (1 / 2)) / log_libm run_env 4)\<rfloor> + 2 = 1"
    by (simp only: q f)
  ultimately show ?thesis
    by (intro exI [of _ "[configured run_env ?a fresh_Profile]"]) (simp add: configured_fields(1) n)
qed

section \<open>What the accumulation computes\<close>

text \<open>The bin a cell is added to, if any.\<close>

definition binned :: "env_t \<Rightarrow> args_t \<Rightarrow> real \<Rightarrow> int \<Rightarrow> cell_t \<Rightarrow> nat option" where
  "binned env a r_max2 n0 c =
     (case cell_bin env a r_max2 n0 c of Inl e \<Rightarrow> None | Inr x \<Rightarrow> x)"

text \<open>The contribution and the weight of a cell to a profile of quantity \<open>q\<close>.\<close>

definition contrib :: "env_t \<Rightarrow> amr_t \<Rightarrow> cell_t \<Rightarrow> quantity \<Rightarrow> real \<times> real" where
  "contrib env A c q =
     (case cell_quant env A (CUBE (dh A (c_lv c))) c q of Inl e \<Rightarrow> (0, 0) | Inr v \<Rightarrow> v)"

text \<open>The sum of \<open>f\<close> over the cells of \<open>cs\<close> that are added to bin \<open>b\<close>.\<close>

definition bin_total :: "(cell_t \<Rightarrow> nat option) \<Rightarrow> (cell_t \<Rightarrow> 'a::comm_monoid_add) \<Rightarrow> cell_t list \<Rightarrow> nat \<Rightarrow> 'a" where
  "bin_total binof f cs b = sum_list (map f (filter (\<lambda>c. binof c = Some b) cs))"

lemma bin_total_Nil [simp]: "bin_total binof f [] b = 0"
  by (simp add: bin_total_def)

lemma bin_total_Cons:
  "bin_total binof f (c # cs) b
   = (if binof c = Some b then f c else 0) + bin_total binof f cs b"
  by (simp add: bin_total_def)

lemma bin_total_append:
  "bin_total binof f (xs @ ys) b = bin_total binof f xs b + bin_total binof f ys b"
  by (simp add: bin_total_def)

lemma bin_total_concat:
  "bin_total binof f (concat xss) b = sum_list (map (\<lambda>xs. bin_total binof f xs b) xss)"
  by (induction xss) (simp_all add: bin_total_append)

text \<open>The accumulators of a thread have \<open>NProf\<close> rows of \<open>n\<close> bins.\<close>

definition omp_shape :: "nat \<Rightarrow> nat \<Rightarrow> omp_t \<Rightarrow> bool" where
  "omp_shape NProf n st =
     (length (OMP_Data st) = NProf \<and> length (OMP_Weight st) = NProf
      \<and> length (OMP_NCell st) = NProf
      \<and> (\<forall>p<NProf. length (OMP_Data st ! p) = n \<and> length (OMP_Weight st ! p) = n
                     \<and> length (OMP_NCell st ! p) = n))"

lemma nth_update2:
  "p < length A \<Longrightarrow> bin < length (A ! p) \<Longrightarrow>
   (A[p := (A ! p)[bin := v]]) ! p' ! b = (if p' = p \<and> b = bin then v else A ! p' ! b)"
  by (cases "p' = p") (simp_all add: nth_list_update)

lemma length_update2:
  "length ((A[p := (A ! p)[bin := v]]) ! p') = length (A ! p')"
  by (cases "p' = p"; cases "p < length A") (simp_all add: list_update_beyond)

lemma add_cell_p_Inr:
  assumes "add_cell_p env A a c bin p st = Inr st'"
  shows "st' = st\<lparr>OMP_Data := (OMP_Data st)[p := (OMP_Data st ! p)[bin := OMP_Data st ! p ! bin
                                  + fst (contrib env A c (TVar a ! p))]],
                  OMP_Weight := (OMP_Weight st)[p := (OMP_Weight st ! p)[bin := OMP_Weight st ! p ! bin
                                  + snd (contrib env A c (TVar a ! p))]],
                  OMP_NCell := (OMP_NCell st)[p := (OMP_NCell st ! p)[bin := OMP_NCell st ! p ! bin + 1]]\<rparr>"
  using assms by (auto simp: add_cell_p_def contrib_def split: sum.splits prod.splits)

lemma add_cell_p_effect:
  assumes ok: "add_cell_p env A a c bin k st = Inr st'"
    and sh: "omp_shape NProf n st" and k: "k < NProf" and bin: "bin < n"
  shows "omp_shape NProf n st'"
    and "p < NProf \<Longrightarrow> b < n \<Longrightarrow>
         OMP_Data st' ! p ! b
         = OMP_Data st ! p ! b + (if p = k \<and> b = bin then fst (contrib env A c (TVar a ! p)) else 0)"
    and "p < NProf \<Longrightarrow> b < n \<Longrightarrow>
         OMP_Weight st' ! p ! b
         = OMP_Weight st ! p ! b + (if p = k \<and> b = bin then snd (contrib env A c (TVar a ! p)) else 0)"
    and "p < NProf \<Longrightarrow> b < n \<Longrightarrow>
         OMP_NCell st' ! p ! b = OMP_NCell st ! p ! b + (if p = k \<and> b = bin then 1 else 0)"
proof -
  note eq = add_cell_p_Inr [OF ok]
  have lens: "k < length (OMP_Data st)" "k < length (OMP_Weight st)" "k < length (OMP_NCell st)"
    "bin < length (OMP_Data st ! k)" "bin < length (OMP_Weight st ! k)"
    "bin < length (OMP_NCell st ! k)"
    using sh k bin by (simp_all add: omp_shape_def)
  show "omp_shape NProf n st'"
    using sh by (simp add: eq omp_shape_def length_update2)
  show "p < NProf \<Longrightarrow> b < n \<Longrightarrow>
         OMP_Data st' ! p ! b
         = OMP_Data st ! p ! b + (if p = k \<and> b = bin then fst (contrib env A c (TVar a ! p)) else 0)"
    using lens by (simp add: eq nth_update2)
  show "p < NProf \<Longrightarrow> b < n \<Longrightarrow>
         OMP_Weight st' ! p ! b
         = OMP_Weight st ! p ! b + (if p = k \<and> b = bin then snd (contrib env A c (TVar a ! p)) else 0)"
    using lens by (simp add: eq nth_update2)
  show "p < NProf \<Longrightarrow> b < n \<Longrightarrow>
         OMP_NCell st' ! p ! b = OMP_NCell st ! p ! b + (if p = k \<and> b = bin then 1 else 0)"
    using lens by (simp add: eq nth_update2)
qed

text \<open>The loop over the profiles, after \<open>k\<close> iterations.\<close>

lemma add_cell_loop:
  assumes sh: "omp_shape NProf n st" and bin: "bin < n"
  shows "k \<le> NProf \<Longrightarrow> for_loop [0..<k] (add_cell_p env A a c bin) st = Inr st' \<Longrightarrow>
         omp_shape NProf n st'
         \<and> (\<forall>p<NProf. \<forall>b<n.
               OMP_Data st' ! p ! b
               = OMP_Data st ! p ! b + (if p < k \<and> b = bin then fst (contrib env A c (TVar a ! p)) else 0)
             \<and> OMP_Weight st' ! p ! b
               = OMP_Weight st ! p ! b + (if p < k \<and> b = bin then snd (contrib env A c (TVar a ! p)) else 0)
             \<and> OMP_NCell st' ! p ! b
               = OMP_NCell st ! p ! b + (if p < k \<and> b = bin then 1 else 0))"
proof (induction k arbitrary: st')
  case 0
  then show ?case using sh by simp
next
  case (Suc k)
  from Suc.prems(2) obtain st1 where
    l1: "for_loop [0..<k] (add_cell_p env A a c bin) st = Inr st1"
    and l2: "add_cell_p env A a c bin k st1 = Inr st'"
    by (auto simp: for_loop_append split: sum.splits)
  from Suc.IH [OF _ l1] Suc.prems(1)
  have sh1: "omp_shape NProf n st1"
    and v1: "\<forall>p<NProf. \<forall>b<n.
               OMP_Data st1 ! p ! b
               = OMP_Data st ! p ! b + (if p < k \<and> b = bin then fst (contrib env A c (TVar a ! p)) else 0)
             \<and> OMP_Weight st1 ! p ! b
               = OMP_Weight st ! p ! b + (if p < k \<and> b = bin then snd (contrib env A c (TVar a ! p)) else 0)
             \<and> OMP_NCell st1 ! p ! b
               = OMP_NCell st ! p ! b + (if p < k \<and> b = bin then 1 else 0)"
    by simp_all
  have k: "k < NProf" using Suc.prems(1) by simp
  note e = add_cell_p_effect [OF l2 sh1 k bin]
  show ?case
  proof (intro conjI allI impI)
    show "omp_shape NProf n st'" by (rule e(1))
  next
    fix p b assume pb: "p < NProf" "b < n"
    show "OMP_Data st' ! p ! b
          = OMP_Data st ! p ! b + (if p < Suc k \<and> b = bin then fst (contrib env A c (TVar a ! p)) else 0)"
      using e(2) [OF pb] v1 pb by (auto simp: less_Suc_eq)
    show "OMP_Weight st' ! p ! b
          = OMP_Weight st ! p ! b + (if p < Suc k \<and> b = bin then snd (contrib env A c (TVar a ! p)) else 0)"
      using e(3) [OF pb] v1 pb by (auto simp: less_Suc_eq)
    show "OMP_NCell st' ! p ! b
          = OMP_NCell st ! p ! b + (if p < Suc k \<and> b = bin then 1 else 0)"
      using e(4) [OF pb] v1 pb by (auto simp: less_Suc_eq)
  qed
qed

lemma cell_bin_range:
  "cell_bin env a r_max2 n0 c = Inr (Some bin) \<Longrightarrow> int bin < n0"
  by (auto simp: cell_bin_def Let_def split: if_splits sum.splits)

text \<open>One cell: a successful step adds the cell to its bin, in every profile.\<close>

lemma cell_step_effect:
  assumes ok: "cell_step env A a NProf r_max2 n0 c st = Inr st'"
    and sh: "omp_shape NProf (nat n0) st"
  shows "omp_shape NProf (nat n0) st'
         \<and> (\<forall>p<NProf. \<forall>b<nat n0.
               OMP_Data st' ! p ! b
               = OMP_Data st ! p ! b
                 + (if binned env a r_max2 n0 c = Some b then fst (contrib env A c (TVar a ! p)) else 0)
             \<and> OMP_Weight st' ! p ! b
               = OMP_Weight st ! p ! b
                 + (if binned env a r_max2 n0 c = Some b then snd (contrib env A c (TVar a ! p)) else 0)
             \<and> OMP_NCell st' ! p ! b
               = OMP_NCell st ! p ! b + (if binned env a r_max2 n0 c = Some b then 1 else 0))"
proof (cases "cell_bin env a r_max2 n0 c")
  case (Inl e)
  with ok show ?thesis by (simp add: cell_step_def)
next
  case (Inr x)
  show ?thesis
  proof (cases x)
    case None
    with Inr ok sh show ?thesis by (simp add: cell_step_def binned_def)
  next
    case (Some bin)
    with Inr have cb: "cell_bin env a r_max2 n0 c = Inr (Some bin)" by simp
    then have bin: "bin < nat n0" using cell_bin_range [OF cb] by simp
    from ok cb have loop: "for_loop [0..<NProf] (add_cell_p env A a c bin) st = Inr st'"
      by (simp add: cell_step_def)
    have bd: "binned env a r_max2 n0 c = Some bin" by (simp add: binned_def cb)
    from add_cell_loop [OF sh bin le_refl loop]
    show ?thesis by (auto simp: bd)
  qed
qed

text \<open>A list of cells: the accumulators grow by the totals over the list.\<close>

lemma cell_loop_effect:
  "for_loop cs (cell_step env A a NProf r_max2 n0) st = Inr st' \<Longrightarrow>
   omp_shape NProf (nat n0) st \<Longrightarrow>
   omp_shape NProf (nat n0) st'
   \<and> (\<forall>p<NProf. \<forall>b<nat n0.
         OMP_Data st' ! p ! b
         = OMP_Data st ! p ! b
           + bin_total (binned env a r_max2 n0) (\<lambda>c. fst (contrib env A c (TVar a ! p))) cs b
       \<and> OMP_Weight st' ! p ! b
         = OMP_Weight st ! p ! b
           + bin_total (binned env a r_max2 n0) (\<lambda>c. snd (contrib env A c (TVar a ! p))) cs b
       \<and> OMP_NCell st' ! p ! b
         = OMP_NCell st ! p ! b + bin_total (binned env a r_max2 n0) (\<lambda>c. 1) cs b)"
proof (induction cs arbitrary: st)
  case Nil
  then show ?case by simp
next
  case (Cons c cs)
  from Cons.prems(1) obtain st1 where
    s1: "cell_step env A a NProf r_max2 n0 c st = Inr st1"
    and s2: "for_loop cs (cell_step env A a NProf r_max2 n0) st1 = Inr st'"
    by (auto split: sum.splits)
  note e1 = cell_step_effect [OF s1 Cons.prems(2)]
  from e1 have sh1: "omp_shape NProf (nat n0) st1" by simp
  note e2 = Cons.IH [OF s2 sh1]
  show ?case
  proof (intro conjI allI impI)
    show "omp_shape NProf (nat n0) st'" using e2 by simp
  next
    fix p b assume pb: "p < NProf" "b < nat n0"
    show "OMP_Data st' ! p ! b
         = OMP_Data st ! p ! b
           + bin_total (binned env a r_max2 n0) (\<lambda>c. fst (contrib env A c (TVar a ! p))) (c # cs) b"
      using e1 e2 pb by (simp add: bin_total_Cons)
    show "OMP_Weight st' ! p ! b
         = OMP_Weight st ! p ! b
           + bin_total (binned env a r_max2 n0) (\<lambda>c. snd (contrib env A c (TVar a ! p))) (c # cs) b"
      using e1 e2 pb by (simp add: bin_total_Cons)
    show "OMP_NCell st' ! p ! b
         = OMP_NCell st ! p ! b + bin_total (binned env a r_max2 n0) (\<lambda>c. 1) (c # cs) b"
      using e1 e2 pb by (simp add: bin_total_Cons)
  qed
qed

lemma omp_init_shape: "omp_shape NProf (nat n0) (omp_init NProf n0)"
  by (simp add: omp_shape_def omp_init_def)

lemma omp_init_nth:
  "p < NProf \<Longrightarrow> b < nat n0 \<Longrightarrow>
   OMP_Data (omp_init NProf n0) ! p ! b = 0 \<and> OMP_Weight (omp_init NProf n0) ! p ! b = 0
   \<and> OMP_NCell (omp_init NProf n0) ! p ! b = 0"
  by (simp add: omp_init_def)

section \<open>What the sum over the threads computes\<close>

lemma map_err_Inr:
  "map_err f xs = Inr ys \<Longrightarrow> length ys = length xs \<and> (\<forall>i<length xs. f (xs ! i) = Inr (ys ! i))"
proof (induction xs arbitrary: ys)
  case Nil
  then show ?case by simp
next
  case (Cons x xs)
  from Cons.prems obtain y ys' where y: "f x = Inr y" and ys': "map_err f xs = Inr ys'"
    and ys: "ys = y # ys'"
    by (auto split: sum.splits)
  from Cons.IH [OF ys'] y ys show ?case
    by (auto simp: nth_Cons split: nat.splits)
qed

lemma map_err_Inl:
  "x \<in> set xs \<Longrightarrow> f x = Inl e \<Longrightarrow> \<exists>e'. map_err f xs = Inl e'"
  by (induction xs) (auto split: sum.splits)

lemma map_err_all_Inr:
  "(\<And>x. x \<in> set xs \<Longrightarrow> f x = Inr (g x)) \<Longrightarrow> map_err f xs = Inr (map g xs)"
  by (induction xs) simp_all

text \<open>The first \<open>m\<close> entries of an array after a loop \<^verbatim>\<open>xs[b] = f( b, xs[b] )\<close>.\<close>

definition array_upd :: "(nat \<Rightarrow> 'a \<Rightarrow> 'a) \<Rightarrow> nat \<Rightarrow> 'a list \<Rightarrow> 'a list" where
  "array_upd f m xs = map (\<lambda>b. f b (xs ! b)) [0..<m] @ drop m xs"

lemma array_upd_0 [simp]: "array_upd f 0 xs = xs"
  by (simp add: array_upd_def)

lemma length_array_upd [simp]: "m \<le> length xs \<Longrightarrow> length (array_upd f m xs) = length xs"
  by (simp add: array_upd_def)

lemma array_upd_nth:
  "m \<le> length xs \<Longrightarrow> b < length xs \<Longrightarrow>
   array_upd f m xs ! b = (if b < m then f b (xs ! b) else xs ! b)"
  by (simp add: array_upd_def nth_append)

lemma array_upd_Suc:
  assumes "m < length xs"
  shows "(array_upd f m xs)[m := f m (array_upd f m xs ! m)] = array_upd f (Suc m) xs"
proof -
  have "array_upd f m xs ! m = xs ! m"
    using assms by (simp add: array_upd_nth)
  moreover have "(map (\<lambda>b. f b (xs ! b)) [0..<m] @ drop m xs)[m := f m (xs ! m)]
                 = map (\<lambda>b. f b (xs ! b)) [0..<m] @ f m (xs ! m) # drop (Suc m) xs"
    using assms by (simp add: list_update_append Cons_nth_drop_Suc [symmetric])
  ultimately show ?thesis by (simp add: array_upd_def)
qed

text \<open>A loop over the bins that updates the three arrays of a profile.\<close>

lemma fold_bins:
  assumes "m \<le> length (Data P)" and "m \<le> length (Weight P)" and "m \<le> length (NCell P)"
  shows "fold (\<lambda>b Q. Q\<lparr>Data := (Data Q)[b := fd b (Data Q ! b)],
                        Weight := (Weight Q)[b := fw b (Weight Q ! b)],
                        NCell := (NCell Q)[b := fn b (NCell Q ! b)]\<rparr>) [0..<m] P
         = P\<lparr>Data := array_upd fd m (Data P), Weight := array_upd fw m (Weight P),
             NCell := array_upd fn m (NCell P)\<rparr>"
  using assms
proof (induction m)
  case 0
  then show ?case by simp
next
  case (Suc m)
  then have "m < length (Data P)" "m < length (Weight P)" "m < length (NCell P)" by simp_all
  with Suc show ?case by (simp add: array_upd_Suc)
qed

text \<open>The profile \<open>p\<close> after the loops of lines 320--336.\<close>

lemma sum_threads_p_fields:
  assumes len: "n \<le> length (Data P)" "n \<le> length (Weight P)" "n \<le> length (NCell P)"
    and NT: "0 < length omp"
  shows "sum_threads_p omp n p P
         = P\<lparr>Data := array_upd (\<lambda>b x. sum_list (map (\<lambda>t. OMP_Data (omp ! t) ! p ! b) [0..<length omp])) n (Data P),
             Weight := array_upd (\<lambda>b x. sum_list (map (\<lambda>t. OMP_Weight (omp ! t) ! p ! b) [0..<length omp])) n (Weight P),
             NCell := array_upd (\<lambda>b x. sum_list (map (\<lambda>t. OMP_NCell (omp ! t) ! p ! b) [0..<length omp])) n (NCell P)\<rparr>"
proof -
  let ?body = "\<lambda>t. fold (\<lambda>b Q. Q\<lparr>Data := (Data Q)[b := Data Q ! b + OMP_Data (omp ! t) ! p ! b],
                                  Weight := (Weight Q)[b := Weight Q ! b + OMP_Weight (omp ! t) ! p ! b],
                                  NCell := (NCell Q)[b := NCell Q ! b + OMP_NCell (omp ! t) ! p ! b]\<rparr>)
                          [0..<n]"
  let ?R = "\<lambda>k. P\<lparr>Data := array_upd (\<lambda>b x. sum_list (map (\<lambda>t. OMP_Data (omp ! t) ! p ! b) [0..<k])) n (Data P),
             Weight := array_upd (\<lambda>b x. sum_list (map (\<lambda>t. OMP_Weight (omp ! t) ! p ! b) [0..<k])) n (Weight P),
             NCell := array_upd (\<lambda>b x. sum_list (map (\<lambda>t. OMP_NCell (omp ! t) ! p ! b) [0..<k])) n (NCell P)\<rparr>"
  have first: "fold (\<lambda>b Q. Q\<lparr>Data := (Data Q)[b := OMP_Data (omp ! 0) ! p ! b],
                              Weight := (Weight Q)[b := OMP_Weight (omp ! 0) ! p ! b],
                              NCell := (NCell Q)[b := OMP_NCell (omp ! 0) ! p ! b]\<rparr>) [0..<n] P
               = ?R 1"
    using fold_bins [OF len, where fd = "\<lambda>b x. OMP_Data (omp ! 0) ! p ! b"
        and fw = "\<lambda>b x. OMP_Weight (omp ! 0) ! p ! b" and fn = "\<lambda>b x. OMP_NCell (omp ! 0) ! p ! b"]
    by simp
  have step: "?body k (?R k) = ?R (Suc k)" for k
  proof -
    have "?body k (?R k)
          = (?R k)\<lparr>Data := array_upd (\<lambda>b x. x + OMP_Data (omp ! k) ! p ! b) n (Data (?R k)),
                   Weight := array_upd (\<lambda>b x. x + OMP_Weight (omp ! k) ! p ! b) n (Weight (?R k)),
                   NCell := array_upd (\<lambda>b x. x + OMP_NCell (omp ! k) ! p ! b) n (NCell (?R k))\<rparr>"
      using len
      by (intro fold_bins [where m = n and P = "?R k" and fd = "\<lambda>b x. x + OMP_Data (omp ! k) ! p ! b"
            and fw = "\<lambda>b x. x + OMP_Weight (omp ! k) ! p ! b"
            and fn = "\<lambda>b x. x + OMP_NCell (omp ! k) ! p ! b"])
         simp_all
    also have "\<dots> = ?R (Suc k)"
      using len by (simp add: array_upd_def nth_append add.commute)
    finally show ?thesis .
  qed
  have loop: "fold ?body [1..<k] (?R 1) = ?R k" if "0 < k" for k
    using that
  proof (induction k)
    case 0
    then show ?case by simp
  next
    case (Suc k)
    show ?case
    proof (cases "k = 0")
      case True
      then show ?thesis by simp
    next
      case False
      then have "fold ?body [1..<Suc k] (?R 1) = ?body k (fold ?body [1..<k] (?R 1))"
        by simp
      also have "\<dots> = ?body k (?R k)" using Suc.IH False by simp
      also have "\<dots> = ?R (Suc k)" by (rule step)
      finally show ?thesis .
    qed
  qed
  show ?thesis
    unfolding sum_threads_p_def Let_def first using loop [OF NT] by simp
qed

section \<open>What one rank holds before the reduction\<close>

text \<open>The bin of a cell, with the radius and the number of bins of the geometry.\<close>

definition bin_of :: "env_t \<Rightarrow> args_t \<Rightarrow> cell_t \<Rightarrow> nat option" where
  "bin_of env a = binned env a (rnd (SQR (geometry_MaxRadius env a))) (geometry_NBin env a)"

text \<open>All cells a rank visits, thread by thread.\<close>

definition rank_cells :: "env_t \<Rightarrow> rank_t \<Rightarrow> args_t \<Rightarrow> cell_t list" where
  "rank_cells env R a = concat (map (thread_cells env R a) [0..<NT env])"

definition rank_Data :: "env_t \<Rightarrow> args_t \<Rightarrow> rank_t \<Rightarrow> nat \<Rightarrow> nat \<Rightarrow> real" where
  "rank_Data env a R p b =
     bin_total (bin_of env a) (\<lambda>c. fst (contrib env (amr R) c (TVar a ! p))) (rank_cells env R a) b"

definition rank_Weight :: "env_t \<Rightarrow> args_t \<Rightarrow> rank_t \<Rightarrow> nat \<Rightarrow> nat \<Rightarrow> real" where
  "rank_Weight env a R p b =
     bin_total (bin_of env a) (\<lambda>c. snd (contrib env (amr R) c (TVar a ! p))) (rank_cells env R a) b"

definition rank_NCell :: "env_t \<Rightarrow> args_t \<Rightarrow> rank_t \<Rightarrow> nat \<Rightarrow> int" where
  "rank_NCell env a R b = bin_total (bin_of env a) (\<lambda>c. 1) (rank_cells env R a) b"

text \<open>Profile \<open>p\<close> of a rank after the sum over its threads.\<close>

definition accumulated :: "env_t \<Rightarrow> args_t \<Rightarrow> rank_t \<Rightarrow> nat \<Rightarrow> Profile_t" where
  "accumulated env a R p =
     (configured env a (Prof_in R ! p))
       \<lparr>Data := map (rank_Data env a R p) [0..<nat (geometry_NBin env a)],
        Weight := map (rank_Weight env a R p) [0..<nat (geometry_NBin env a)],
        NCell := map (rank_NCell env a R) [0..<nat (geometry_NBin env a)]\<rparr>"

lemma MaxRadius_configured: "MaxRadius (configured env a P) = geometry_MaxRadius env a"
  by (simp add: configured_fields geometry_MaxRadius_def)

lemma geometry_Inr:
  assumes "geometry env a Prof = Inr Prof'" and "Prof' \<noteq> []"
  shows "0 \<le> geometry_NBin env a \<and> Prof' = map (configured env a) Prof \<and> Prof \<noteq> []
         \<and> geometry_fits env a"
proof -
  have ne: "Prof \<noteq> []"
    using assms by (auto simp: geometry_def)
  have f: "geometry_fits env a"
  proof (rule ccontr)
    assume "\<not> geometry_fits env a"
    then have "geometry env a Prof = Inl IntOverflow"
      using ne by (rule geometry_overflow)
    with assms(1) show False by simp
  qed
  have "0 \<le> geometry_NBin env a"
  proof (rule ccontr)
    assume "\<not> 0 \<le> geometry_NBin env a"
    then have "geometry env a Prof = Inl BadAllocation"
      using ne f by (simp add: geometry_fails)
    with assms(1) show False by simp
  qed
  with assms(1) ne f show ?thesis by (simp add: geometry_ok)
qed

text \<open>The accumulators of thread \<open>t\<close> when it has run through.\<close>

lemma thread_run_Inr:
  assumes run: "thread_run env R a (map (configured env a) Prof) t = Inr st"
    and ne: "Prof \<noteq> []"
  shows "omp_shape (length Prof) (nat (geometry_NBin env a)) st
         \<and> (\<forall>p<length Prof. \<forall>b<nat (geometry_NBin env a).
               OMP_Data st ! p ! b
               = bin_total (bin_of env a) (\<lambda>c. fst (contrib env (amr R) c (TVar a ! p)))
                   (thread_cells env R a t) b
             \<and> OMP_Weight st ! p ! b
               = bin_total (bin_of env a) (\<lambda>c. snd (contrib env (amr R) c (TVar a ! p)))
                   (thread_cells env R a t) b
             \<and> OMP_NCell st ! p ! b
               = bin_total (bin_of env a) (\<lambda>c. 1) (thread_cells env R a t) b)"
proof -
  have h0: "map (configured env a) Prof ! 0 = configured env a (Prof ! 0)"
    using ne by simp
  from run have loop: "for_loop (thread_cells env R a t)
       (cell_step env (amr R) a (length Prof) (rnd (SQR (geometry_MaxRadius env a))) (geometry_NBin env a))
       (omp_init (length Prof) (geometry_NBin env a)) = Inr st"
    by (simp add: thread_run_def h0 MaxRadius_configured NBin_configured)
  from cell_loop_effect [OF loop omp_init_shape]
  show ?thesis
    by (simp add: omp_init_nth bin_of_def)
qed

lemma local_profile_Inr:
  assumes "local_profile env a R = Inr Prof'"
  shows "Prof' = map (accumulated env a R) [0..<length (Prof_in R)]"
    and "Prof_in R \<noteq> []" and "0 \<le> geometry_NBin env a" and "0 < NT env"
    and "check_params env a = Inr ()"
proof -
  from assms obtain Prof omp where chk: "check_params env a = Inr ()"
    and geo: "geometry env a (Prof_in R) = Inr Prof" and ne: "Prof \<noteq> []" and nt: "NT env \<noteq> 0"
    and thr: "map_err (thread_run env R a Prof) [0..<NT env] = Inr omp"
    and res: "Prof' = sum_threads omp Prof"
    by (auto simp: local_profile_def split: sum.splits if_splits)
  note g = geometry_Inr [OF geo ne]
  let ?n = "nat (geometry_NBin env a)"
  let ?N = "length (Prof_in R)"
  from g have Prof: "Prof = map (configured env a) (Prof_in R)" and ne': "Prof_in R \<noteq> []" by simp_all
  from map_err_Inr [OF thr] have lomp: "length omp = NT env"
    and each: "\<And>t. t < NT env \<Longrightarrow> thread_run env R a Prof t = Inr (omp ! t)"
    by simp_all
  have th: "omp_shape ?N ?n (omp ! t)
         \<and> (\<forall>p<?N. \<forall>b<?n.
               OMP_Data (omp ! t) ! p ! b
               = bin_total (bin_of env a) (\<lambda>c. fst (contrib env (amr R) c (TVar a ! p)))
                   (thread_cells env R a t) b
             \<and> OMP_Weight (omp ! t) ! p ! b
               = bin_total (bin_of env a) (\<lambda>c. snd (contrib env (amr R) c (TVar a ! p)))
                   (thread_cells env R a t) b
             \<and> OMP_NCell (omp ! t) ! p ! b
               = bin_total (bin_of env a) (\<lambda>c. 1) (thread_cells env R a t) b)"
    if "t < NT env" for t
    using thread_run_Inr [OF _ ne', of env R a t "omp ! t"] each [OF that] Prof by simp
  have n0: "nat (NBin (Prof ! 0)) = ?n"
    using ne' by (simp add: Prof NBin_configured)
  have one: "sum_threads_p omp ?n p (Prof ! p) = accumulated env a R p" if p: "p < ?N" for p
  proof -
    let ?P = "configured env a (Prof_in R ! p)"
    have Pp: "Prof ! p = ?P" using p by (simp add: Prof)
    have lens: "?n \<le> length (Data ?P)" "?n \<le> length (Weight ?P)" "?n \<le> length (NCell ?P)"
      by (simp_all add: configured_fields)
    have pos: "0 < length omp" using nt lomp by simp
    have D: "array_upd (\<lambda>b x. sum_list (map (\<lambda>t. OMP_Data (omp ! t) ! p ! b) [0..<length omp])) ?n (Data ?P)
             = map (rank_Data env a R p) [0..<?n]"
      using th p
      by (auto simp: array_upd_def configured_fields rank_Data_def rank_cells_def lomp
            bin_total_concat comp_def intro!: arg_cong [where f = sum_list])
    have W: "array_upd (\<lambda>b x. sum_list (map (\<lambda>t. OMP_Weight (omp ! t) ! p ! b) [0..<length omp])) ?n (Weight ?P)
             = map (rank_Weight env a R p) [0..<?n]"
      using th p
      by (auto simp: array_upd_def configured_fields rank_Weight_def rank_cells_def lomp
            bin_total_concat comp_def intro!: arg_cong [where f = sum_list])
    have N: "array_upd (\<lambda>b x. sum_list (map (\<lambda>t. OMP_NCell (omp ! t) ! p ! b) [0..<length omp])) ?n (NCell ?P)
             = map (rank_NCell env a R) [0..<?n]"
      using th p
      by (auto simp: array_upd_def configured_fields rank_NCell_def rank_cells_def lomp
            bin_total_concat comp_def intro!: arg_cong [where f = sum_list])
    show ?thesis
      unfolding Pp sum_threads_p_fields [OF lens pos] D W N
      by (simp add: accumulated_def)
  qed
  show "Prof' = map (accumulated env a R) [0..<?N]"
    unfolding res sum_threads_def n0 using one by (simp add: Prof)
  show "Prof_in R \<noteq> []" by (rule ne')
  show "0 \<le> geometry_NBin env a" using g by simp
  show "0 < NT env" using nt by simp
  show "check_params env a = Inr ()" by (rule chk)
qed

section \<open>What every rank holds after the broadcast\<close>

text \<open>The sums over all ranks.\<close>

definition total_Data :: "env_t \<Rightarrow> args_t \<Rightarrow> rank_t list \<Rightarrow> nat \<Rightarrow> nat \<Rightarrow> real" where
  "total_Data env a ranks p b = sum_list (map (\<lambda>R. rank_Data env a R p b) ranks)"

definition total_Weight :: "env_t \<Rightarrow> args_t \<Rightarrow> rank_t list \<Rightarrow> nat \<Rightarrow> nat \<Rightarrow> real" where
  "total_Weight env a ranks p b = sum_list (map (\<lambda>R. rank_Weight env a R p b) ranks)"

definition total_NCell :: "env_t \<Rightarrow> args_t \<Rightarrow> rank_t list \<Rightarrow> nat \<Rightarrow> int" where
  "total_NCell env a ranks b = sum_list (map (\<lambda>R. rank_NCell env a R b) ranks)"

text \<open>Profile \<open>p\<close> of rank \<open>R\<close> after the reduction, the normalisation and the
  broadcast: the geometry of the rank's own object with the arrays of the root.\<close>

definition reduced :: "env_t \<Rightarrow> args_t \<Rightarrow> rank_t list \<Rightarrow> rank_t \<Rightarrow> nat \<Rightarrow> Profile_t" where
  "reduced env a ranks R p =
     (configured env a (Prof_in R ! p))
       \<lparr>Data := map (\<lambda>b. normalized_value (TVar a ! p) (total_NCell env a ranks b)
                          (total_Data env a ranks p b) (total_Weight env a ranks p b))
                  [0..<nat (geometry_NBin env a)],
        Weight := map (total_Weight env a ranks p) [0..<nat (geometry_NBin env a)],
        NCell := map (total_NCell env a ranks) [0..<nat (geometry_NBin env a)]\<rparr>"

lemma accumulated_fields:
  "NBin (accumulated env a R p) = geometry_NBin env a"
  "Data (accumulated env a R p) = map (rank_Data env a R p) [0..<nat (geometry_NBin env a)]"
  "Weight (accumulated env a R p) = map (rank_Weight env a R p) [0..<nat (geometry_NBin env a)]"
  "NCell (accumulated env a R p) = map (rank_NCell env a R) [0..<nat (geometry_NBin env a)]"
  by (simp_all add: accumulated_def NBin_configured)

lemma MPI_Reduce_SUM_maps:
  "ranks \<noteq> [] \<Longrightarrow>
   MPI_Reduce_SUM n (map (\<lambda>R. map (f R) [0..<n]) ranks)
   = map (\<lambda>b. sum_list (map (\<lambda>R. f R b) ranks)) [0..<n]"
  by (cases ranks) (simp_all add: MPI_Reduce_SUM_def comp_def)

lemma map_err_map: "map_err f (map g xs) = map_err (\<lambda>x. f (g x)) xs"
  by (induction xs) (simp_all split: sum.splits)

lemma map_err_cong:
  "(\<And>x. x \<in> set xs \<Longrightarrow> f x = g x) \<Longrightarrow> map_err f xs = map_err g xs"
  by (induction xs) (simp_all split: sum.splits)

text \<open>The profiles of the root after the reduction.\<close>

lemma reduce_root_accumulated:
  assumes ne: "ranks \<noteq> []" and len: "\<forall>R\<in>set ranks. length (Prof_in R) = NProf"
  shows "reduce_root (map (\<lambda>R. map (accumulated env a R) [0..<length (Prof_in R)]) ranks)
         = map (\<lambda>p. (accumulated env a (hd ranks) p)
                      \<lparr>Data := map (total_Data env a ranks p) [0..<nat (geometry_NBin env a)],
                       Weight := map (total_Weight env a ranks p) [0..<nat (geometry_NBin env a)],
                       NCell := map (total_NCell env a ranks) [0..<nat (geometry_NBin env a)]\<rparr>)
             [0..<NProf]"
proof -
  let ?n = "nat (geometry_NBin env a)"
  have locals: "map (\<lambda>R. map (accumulated env a R) [0..<length (Prof_in R)]) ranks
                = map (\<lambda>R. map (accumulated env a R) [0..<NProf]) ranks"
    using len by simp
  have hd: "hd (map (\<lambda>R. map (accumulated env a R) [0..<NProf]) ranks)
            = map (accumulated env a (hd ranks)) [0..<NProf]"
    using ne by (simp add: hd_map)
  have D: "MPI_Reduce_SUM ?n (map (\<lambda>Prof. Data (Prof ! p)) (map (\<lambda>R. map (accumulated env a R) [0..<NProf]) ranks))
           = map (total_Data env a ranks p) [0..<?n]" if "p < NProf" for p
  proof -
    have "map (\<lambda>Prof. Data (Prof ! p)) (map (\<lambda>R. map (accumulated env a R) [0..<NProf]) ranks)
          = map (\<lambda>R. map (\<lambda>b. rank_Data env a R p b) [0..<?n]) ranks"
      using that by (simp add: comp_def accumulated_fields)
    then show ?thesis
      by (simp only: MPI_Reduce_SUM_maps [OF ne]) (simp add: total_Data_def)
  qed
  have W: "MPI_Reduce_SUM ?n (map (\<lambda>Prof. Weight (Prof ! p)) (map (\<lambda>R. map (accumulated env a R) [0..<NProf]) ranks))
           = map (total_Weight env a ranks p) [0..<?n]" if "p < NProf" for p
  proof -
    have "map (\<lambda>Prof. Weight (Prof ! p)) (map (\<lambda>R. map (accumulated env a R) [0..<NProf]) ranks)
          = map (\<lambda>R. map (\<lambda>b. rank_Weight env a R p b) [0..<?n]) ranks"
      using that by (simp add: comp_def accumulated_fields)
    then show ?thesis
      by (simp only: MPI_Reduce_SUM_maps [OF ne]) (simp add: total_Weight_def)
  qed
  have N: "MPI_Reduce_SUM ?n (map (\<lambda>Prof. NCell (Prof ! p)) (map (\<lambda>R. map (accumulated env a R) [0..<NProf]) ranks))
           = map (total_NCell env a ranks) [0..<?n]" if "p < NProf" for p
  proof -
    have "map (\<lambda>Prof. NCell (Prof ! p)) (map (\<lambda>R. map (accumulated env a R) [0..<NProf]) ranks)
          = map (\<lambda>R. map (\<lambda>b. rank_NCell env a R b) [0..<?n]) ranks"
      using that by (simp add: comp_def accumulated_fields)
    then show ?thesis
      by (simp only: MPI_Reduce_SUM_maps [OF ne]) (simp add: total_NCell_def)
  qed
  show ?thesis
    unfolding locals reduce_root_def hd
    by (rule map_cong) (simp_all add: Let_def accumulated_fields D W N del: map_map)
qed

lemma normalize_bin_eq:
  "normalize_bin q b P
   = P\<lparr>Data := (Data P)[b := normalized_value q (NCell P ! b) (Data P ! b) (Weight P ! b)]\<rparr>"
  by (cases q) (simp_all add: normalize_bin_def normalized_value_def)

lemma fold_normalize_bin_eq:
  "m \<le> length (Data P) \<Longrightarrow>
   fold (normalize_bin q) [0..<m] P
   = P\<lparr>Data := array_upd (\<lambda>b x. normalized_value q (NCell P ! b) x (Weight P ! b)) m (Data P)\<rparr>"
proof (induction m)
  case 0
  then show ?case by simp
next
  case (Suc m)
  then have m: "m < length (Data P)" by simp
  let ?f = "\<lambda>b x. normalized_value q (NCell P ! b) x (Weight P ! b)"
  have "fold (normalize_bin q) [0..<Suc m] P
        = normalize_bin q m (P\<lparr>Data := array_upd ?f m (Data P)\<rparr>)"
    using Suc by simp
  also have "\<dots> = P\<lparr>Data := (array_upd ?f m (Data P))[m := ?f m (array_upd ?f m (Data P) ! m)]\<rparr>"
    by (simp add: normalize_bin_eq)
  also have "\<dots> = P\<lparr>Data := array_upd ?f (Suc m) (Data P)\<rparr>"
    using array_upd_Suc [OF m, of ?f] by simp
  finally show ?case .
qed

text \<open>The profiles of the root after the normalisation.\<close>

lemma normalize_reduce_root:
  assumes ne: "ranks \<noteq> []" and len: "\<forall>R\<in>set ranks. length (Prof_in R) = NProf"
  shows "normalize a (reduce_root (map (\<lambda>R. map (accumulated env a R) [0..<length (Prof_in R)]) ranks))
         = map (reduced env a ranks (hd ranks)) [0..<NProf]"
proof -
  let ?n = "nat (geometry_NBin env a)"
  let ?Root = "\<lambda>p. (accumulated env a (hd ranks) p)
                      \<lparr>Data := map (total_Data env a ranks p) [0..<?n],
                       Weight := map (total_Weight env a ranks p) [0..<?n],
                       NCell := map (total_NCell env a ranks) [0..<?n]\<rparr>"
  have one: "fold (normalize_bin (TVar a ! p)) [0..<?n] (?Root p) = reduced env a ranks (hd ranks) p"
    for p
  proof -
    have "fold (normalize_bin (TVar a ! p)) [0..<?n] (?Root p)
          = (?Root p)\<lparr>Data := array_upd (\<lambda>b x. normalized_value (TVar a ! p) (NCell (?Root p) ! b) x
                                              (Weight (?Root p) ! b)) ?n (Data (?Root p))\<rparr>"
      by (rule fold_normalize_bin_eq) simp
    also have "\<dots> = reduced env a ranks (hd ranks) p"
      by (simp add: reduced_def accumulated_def array_upd_def)
    finally show ?thesis .
  qed
  show ?thesis
    unfolding reduce_root_accumulated [OF ne len] normalize_def
    by (rule nth_equalityI) (simp_all add: one accumulated_fields)
qed

lemma bcast_reduced:
  "bcast (map (reduced env a ranks R0) [0..<NProf]) (map (accumulated env a R) [0..<NProf])
   = map (reduced env a ranks R) [0..<NProf]"
  unfolding bcast_def
  by (rule nth_equalityI)
     (simp_all add: Let_def MPI_Bcast_def accumulated_fields reduced_def accumulated_def NBin_configured)

text \<open>
  The routine, when all ranks pass the same number of profiles: after the local
  accumulation every rank finishes on the reduced profiles.
\<close>

lemma Aux_ComputeProfile_reduced:
  assumes ne: "ranks \<noteq> []" and len: "\<forall>R\<in>set ranks. length (Prof_in R) = NProf"
    and loc: "map_err (local_profile env a) ranks = Inr locals"
  shows "Aux_ComputeProfile env a ranks
         = map_err (\<lambda>R. finish a (map (reduced env a ranks R) [0..<NProf])) ranks"
proof -
  let ?L = "\<lambda>R. map (accumulated env a R) [0..<length (Prof_in R)]"
  from map_err_Inr [OF loc] have ll: "length locals = length ranks"
    and each: "\<And>i. i < length ranks \<Longrightarrow> local_profile env a (ranks ! i) = Inr (locals ! i)"
    by simp_all
  have locals: "locals = map ?L ranks"
  proof (rule nth_equalityI)
    show "length locals = length (map ?L ranks)" using ll by simp
  next
    fix i assume "i < length locals"
    then have i: "i < length ranks" using ll by simp
    from local_profile_Inr(1) [OF each [OF i]] i
    show "locals ! i = map ?L ranks ! i" by simp
  qed
  have ne': "locals \<noteq> []" using ne ll by auto
  have "Aux_ComputeProfile env a ranks
        = map_err (\<lambda>Prof. finish a (bcast (normalize a (reduce_root locals)) Prof)) locals"
    using loc ne' by (simp add: Aux_ComputeProfile_def Let_def)
  also have "\<dots> = map_err (\<lambda>Prof. finish a (bcast (map (reduced env a ranks (hd ranks)) [0..<NProf]) Prof))
                     (map ?L ranks)"
    unfolding locals normalize_reduce_root [OF ne len] ..
  also have "\<dots> = map_err (\<lambda>R. finish a (bcast (map (reduced env a ranks (hd ranks)) [0..<NProf]) (?L R)))
                     ranks"
    by (rule map_err_map)
  also have "\<dots> = map_err (\<lambda>R. finish a (map (reduced env a ranks R) [0..<NProf])) ranks"
    using len by (intro map_err_cong) (simp add: bcast_reduced)
  finally show ?thesis .
qed

section \<open>What the removal of the empty bins computes\<close>

lemma find_b_up_le: "s \<le> n \<Longrightarrow> find_b_up ncell n s \<le> n"
proof (induction ncell n s rule: find_b_up.induct)
  case (1 ncell n b_up)
  show ?case
  proof (cases "b_up < n \<and> ncell ! b_up = 0")
    case True
    with 1 have "find_b_up ncell n (Suc b_up) \<le> n" by simp
    with True show ?thesis by (subst find_b_up.simps) simp
  next
    case False
    with 1 show ?thesis by (subst find_b_up.simps) auto
  qed
qed

lemma find_b_up_zero: "s \<le> i \<Longrightarrow> i < find_b_up ncell n s \<Longrightarrow> ncell ! i = 0"
proof (induction ncell n s rule: find_b_up.induct)
  case (1 ncell n b_up)
  show ?case
  proof (cases "b_up < n \<and> ncell ! b_up = 0")
    case True
    then have eq: "find_b_up ncell n b_up = find_b_up ncell n (Suc b_up)"
      by (subst find_b_up.simps) simp
    show ?thesis
    proof (cases "i = b_up")
      case True
      with \<open>b_up < n \<and> ncell ! b_up = 0\<close> show ?thesis by simp
    next
      case False
      with 1 True eq show ?thesis by simp
    qed
  next
    case False
    then have "find_b_up ncell n b_up = b_up"
      by (subst find_b_up.simps) auto
    with 1 show ?thesis by simp
  qed
qed

text \<open>The loop \<^verbatim>\<open>xs[j - stride] = xs[j]\<close> over the indices \<open>js\<close>, on one array.\<close>

definition shift_down :: "nat \<Rightarrow> nat list \<Rightarrow> 'a list \<Rightarrow> 'a list" where
  "shift_down stride js xs = fold (\<lambda>j ys. ys[j - stride := ys ! j]) js xs"

lemma shift_down_Nil [simp]: "shift_down s [] xs = xs"
  by (simp add: shift_down_def)

lemma shift_down_snoc: "shift_down s (js @ [j]) xs = (shift_down s js xs)[j - s := shift_down s js xs ! j]"
  by (simp add: shift_down_def)

lemma length_shift_down [simp]: "length (shift_down s js xs) = length xs"
  by (induction js arbitrary: xs) (simp_all add: shift_down_def)

lemma shift_down_nth:
  assumes s: "0 < s"
  shows "n \<le> length xs \<Longrightarrow> i < length xs \<Longrightarrow>
         shift_down s [b + s..<n] xs ! i = (if b \<le> i \<and> i + s < n then xs ! (i + s) else xs ! i)"
proof (induction n arbitrary: i)
  case 0
  then show ?case by simp
next
  case (Suc n)
  show ?case
  proof (cases "b + s \<le> n")
    case False
    then show ?thesis by auto
  next
    case True
    let ?ys = "shift_down s [b + s..<n] xs"
    have n: "n < length xs" using Suc.prems by simp
    have ys: "\<And>i. i < length xs \<Longrightarrow> ?ys ! i = (if b \<le> i \<and> i + s < n then xs ! (i + s) else xs ! i)"
      using Suc.IH Suc.prems(1) by simp
    have yn: "?ys ! n = xs ! n" using ys [OF n] s by simp
    have "shift_down s [b + s..<Suc n] xs = ?ys[n - s := ?ys ! n]"
      using True by (simp add: shift_down_snoc)
    then have "shift_down s [b + s..<Suc n] xs ! i = (if i = n - s then xs ! n else ?ys ! i)"
      using n Suc.prems(2) by (simp add: yn nth_list_update)
    also have "\<dots> = (if b \<le> i \<and> i + s < Suc n then xs ! (i + s) else xs ! i)"
    proof (cases "i = n - s")
      case True
      with \<open>b + s \<le> n\<close> have "b \<le> i" "i + s = n" by simp_all
      then show ?thesis using True by simp
    next
      case False
      then have "i + s \<noteq> n" using \<open>b + s \<le> n\<close> by auto
      then show ?thesis using ys [OF Suc.prems(2)] False by (auto simp: less_Suc_eq)
    qed
    finally show ?thesis .
  qed
qed

lemma fold_shift_bin:
  "fold (shift_bin s) js P
   = P\<lparr>Radius := shift_down s js (Radius P), Data := shift_down s js (Data P),
       Weight := shift_down s js (Weight P), NCell := shift_down s js (NCell P)\<rparr>"
  by (induction js arbitrary: P) (simp_all add: shift_bin_def shift_down_def)

lemma fold_map_each: "fold (\<lambda>j Pr. map (f j) Pr) js Prof = map (fold f js) Prof"
  by (induction js arbitrary: Prof) simp_all

lemma remove_run_eq:
  "remove_run b Prof
   = (let n = nat (NBin (Prof ! 0));
          s = find_b_up (NCell (Prof ! 0)) n (b + 1) - b
      in map (\<lambda>P. P\<lparr>NBin := NBin P - int s,
                      Radius := shift_down s [b + s..<n] (Radius P),
                      Data := shift_down s [b + s..<n] (Data P),
                      Weight := shift_down s [b + s..<n] (Weight P),
                      NCell := shift_down s [b + s..<n] (NCell P)\<rparr>) Prof)"
  by (simp add: remove_run_def Let_def fold_map_each fold_shift_bin comp_def)

text \<open>The bins from \<open>b\<close> on that are kept, by the cell counts \<open>ncell\<close>.\<close>

definition kept :: "int list \<Rightarrow> nat \<Rightarrow> nat \<Rightarrow> nat list" where
  "kept ncell b n = filter (\<lambda>i. ncell ! i \<noteq> 0) [b..<n]"

lemma kept_nonzero:
  "b < n \<Longrightarrow> ncell ! b \<noteq> 0 \<Longrightarrow> kept ncell b n = b # kept ncell (Suc b) n"
  by (simp add: kept_def upt_conv_Cons)

lemma upt_shift: "s \<le> n \<Longrightarrow> [b + s..<n] = map (\<lambda>i. i + s) [b..<n - s]"
  by (induction n) (auto simp: Suc_diff_le map_add_upt)

text \<open>Removing a run of empty bins that starts at \<open>b\<close>: the kept bins of any array
  \<open>xs\<close> of the profile are the same before and after the shift.\<close>

lemma kept_after_run:
  assumes b: "b < n" and zero: "ncell ! b = 0"
    and n: "n \<le> length ncell" "n \<le> length xs"
    and s_def: "s = find_b_up ncell n (b + 1) - b"
  shows "0 < s" and "b + s \<le> n"
    and "map (nth (shift_down s [b + s..<n] xs)) (kept (shift_down s [b + s..<n] ncell) b (n - s))
         = map (nth xs) (kept ncell b n)"
    and "take b (shift_down s [b + s..<n] xs) = take b xs"
proof -
  let ?u = "find_b_up ncell n (b + 1)"
  have u1: "b + 1 \<le> ?u" by (rule find_b_up_ge)
  have u2: "?u \<le> n" using b by (intro find_b_up_le) simp
  show s: "0 < s" using u1 by (simp add: s_def)
  show bs: "b + s \<le> n" using u1 u2 by (simp add: s_def)
  have us: "?u = b + s" using u1 by (simp add: s_def)
  have z: "ncell ! i = 0" if "b \<le> i" "i < b + s" for i
  proof (cases "i = b")
    case True
    then show ?thesis using zero by simp
  next
    case False
    with that us show ?thesis by (intro find_b_up_zero [of "b + 1" i ncell n]) simp_all
  qed
  have "[b..<n] = [b..<b + s] @ [b + s..<n]"
    using bs by (metis le_add1 upt_add_eq_append le_Suc_ex)
  then have "kept ncell b n = filter (\<lambda>i. ncell ! i \<noteq> 0) [b..<b + s] @ kept ncell (b + s) n"
    by (simp add: kept_def)
  moreover have "filter (\<lambda>i. ncell ! i \<noteq> 0) [b..<b + s] = []"
    using z by (auto simp: filter_empty_conv)
  ultimately have k1: "kept ncell b n = kept ncell (b + s) n" by simp
  have k2: "kept ncell (b + s) n = map (\<lambda>i. i + s) (filter (\<lambda>i. ncell ! (i + s) \<noteq> 0) [b..<n - s])"
    using bs by (simp add: kept_def upt_shift filter_map comp_def)
  have k3: "kept (shift_down s [b + s..<n] ncell) b (n - s)
            = filter (\<lambda>i. ncell ! (i + s) \<noteq> 0) [b..<n - s]"
    unfolding kept_def
  proof (rule filter_cong [OF refl])
    fix i assume "i \<in> set [b..<n - s]"
    then have i: "b \<le> i" "i + s < n" by auto
    then have "i < length ncell" using n by simp
    from shift_down_nth [OF s n(1) this, of b] i
    show "(shift_down s [b + s..<n] ncell ! i \<noteq> 0) = (ncell ! (i + s) \<noteq> 0)" by simp
  qed
  show "map (nth (shift_down s [b + s..<n] xs)) (kept (shift_down s [b + s..<n] ncell) b (n - s))
         = map (nth xs) (kept ncell b n)"
    unfolding k1 k2 k3 map_map comp_def
  proof (rule map_cong [OF refl])
    fix i assume "i \<in> set (filter (\<lambda>i. ncell ! (i + s) \<noteq> 0) [b..<n - s])"
    then have i: "b \<le> i" "i + s < n" by auto
    then have "i < length xs" using n by simp
    from shift_down_nth [OF s n(2) this, of b] i
    show "shift_down s [b + s..<n] xs ! i = xs ! (i + s)" by simp
  qed
  show "take b (shift_down s [b + s..<n] xs) = take b xs"
  proof (rule nth_take_lemma)
    show "b \<le> length (shift_down s [b + s..<n] xs)" using b n by simp
    show "b \<le> length xs" using b n by simp
    fix i
    show "i < b \<longrightarrow> shift_down s [b + s..<n] xs ! i = xs ! i"
    proof
      assume "i < b"
      then have "i < length xs" using b n by simp
      from shift_down_nth [OF s n(2) this, of b] \<open>i < b\<close>
      show "shift_down s [b + s..<n] xs ! i = xs ! i" by simp
    qed
  qed
qed

text \<open>
  An array \<open>ys\<close> holds the array \<open>xs\<close> with the empty bins from \<open>b\<close> on removed: the
  bins below \<open>b\<close> and then the kept bins, in their order (what follows them in
  \<open>ys\<close> is stale).
\<close>

definition compacts :: "int list \<Rightarrow> nat \<Rightarrow> nat \<Rightarrow> 'a list \<Rightarrow> 'a list \<Rightarrow> bool" where
  "compacts ncell b n xs ys =
     (length ys = length xs
      \<and> take (b + length (kept ncell b n)) ys = take b xs @ map (nth xs) (kept ncell b n))"

lemma compacts_end: "compacts ncell b b xs xs"
  by (simp add: compacts_def kept_def)

lemma compacts_nonzero:
  assumes "b < n" and "n \<le> length xs" and "ncell ! b \<noteq> 0"
    and "compacts ncell (Suc b) n xs ys"
  shows "compacts ncell b n xs ys"
proof -
  have "b < length xs" using assms by simp
  then have "take (Suc b) xs = take b xs @ [xs ! b]" by (rule take_Suc_conv_app_nth)
  with assms show ?thesis
    by (simp add: compacts_def kept_nonzero)
qed

lemma kept_length_after_run:
  assumes "b < n" and "ncell ! b = 0" and "n \<le> length ncell"
    and "s = find_b_up ncell n (b + 1) - b"
  shows "length (kept (shift_down s [b + s..<n] ncell) b (n - s)) = length (kept ncell b n)"
proof -
  from kept_after_run(3) [OF assms(1,2,3,3,4)]
  have "length (map (nth (shift_down s [b + s..<n] ncell)) (kept (shift_down s [b + s..<n] ncell) b (n - s)))
        = length (map (nth ncell) (kept ncell b n))"
    by (rule arg_cong)
  then show ?thesis by simp
qed

lemma compacts_run:
  assumes b: "b < n" and zero: "ncell ! b = 0" and n: "n \<le> length ncell" "n \<le> length xs"
    and s: "s = find_b_up ncell n (b + 1) - b"
    and c: "compacts (shift_down s [b + s..<n] ncell) b (n - s) (shift_down s [b + s..<n] xs) ys"
  shows "compacts ncell b n xs ys"
  using c kept_after_run(3,4) [OF b zero n s] kept_length_after_run [OF b zero n(1) s]
  by (simp add: compacts_def)

text \<open>A profile \<open>P'\<close> holds the profile \<open>P\<close> with its empty bins from \<open>b\<close> on removed.\<close>

definition compacted_from :: "nat \<Rightarrow> Profile_t \<Rightarrow> Profile_t \<Rightarrow> bool" where
  "compacted_from b P P' =
     (NBin P' = int (b + length (kept (NCell P) b (nat (NBin P))))
      \<and> compacts (NCell P) b (nat (NBin P)) (Radius P) (Radius P')
      \<and> compacts (NCell P) b (nat (NBin P)) (Data P) (Data P')
      \<and> compacts (NCell P) b (nat (NBin P)) (Weight P) (Weight P')
      \<and> compacts (NCell P) b (nat (NBin P)) (NCell P) (NCell P')
      \<and> LogBin P' = LogBin P \<and> LogBinRatio P' = LogBinRatio P
      \<and> MaxRadius P' = MaxRadius P \<and> Center P' = Center P)"

text \<open>The arrays of a profile hold at least \<open>NBin\<close> bins.\<close>

definition allocated :: "Profile_t \<Rightarrow> bool" where
  "allocated P =
     (nat (NBin P) \<le> length (Radius P) \<and> nat (NBin P) \<le> length (Data P)
      \<and> nat (NBin P) \<le> length (Weight P) \<and> nat (NBin P) \<le> length (NCell P))"

text \<open>All profiles have the number of bins and the cell counts of the first.\<close>

definition aligned :: "Profile_t list \<Rightarrow> bool" where
  "aligned Prof =
     (\<forall>P\<in>set Prof. NBin P = NBin (Prof ! 0) \<and> NCell P = NCell (Prof ! 0) \<and> allocated P)"

text \<open>One profile after a run of \<open>s\<close> empty bins at \<open>b\<close> has been removed.\<close>

definition run_removed :: "nat \<Rightarrow> nat \<Rightarrow> nat \<Rightarrow> Profile_t \<Rightarrow> Profile_t" where
  "run_removed b n s P =
     P\<lparr>NBin := NBin P - int s,
       Radius := shift_down s [b + s..<n] (Radius P),
       Data := shift_down s [b + s..<n] (Data P),
       Weight := shift_down s [b + s..<n] (Weight P),
       NCell := shift_down s [b + s..<n] (NCell P)\<rparr>"

lemma remove_run_map:
  "remove_run b Prof
   = map (run_removed b (nat (NBin (Prof ! 0)))
            (find_b_up (NCell (Prof ! 0)) (nat (NBin (Prof ! 0))) (b + 1) - b)) Prof"
  by (simp add: remove_run_eq Let_def run_removed_def)

lemma compacted_from_end: "NBin P = int b \<Longrightarrow> compacted_from b P P"
  by (simp add: compacted_from_def compacts_end kept_def)

lemma compacted_from_nonzero:
  assumes "int b < NBin P" and "NCell P ! b \<noteq> 0" and "allocated P"
    and "compacted_from (Suc b) P P'"
  shows "compacted_from b P P'"
proof -
  have b: "b < nat (NBin P)" using assms(1) by simp
  have len: "nat (NBin P) \<le> length (Radius P)" "nat (NBin P) \<le> length (Data P)"
    "nat (NBin P) \<le> length (Weight P)" "nat (NBin P) \<le> length (NCell P)"
    using assms(3) by (simp_all add: allocated_def)
  have k: "length (kept (NCell P) b (nat (NBin P))) = Suc (length (kept (NCell P) (Suc b) (nat (NBin P))))"
    using b assms(2) by (simp add: kept_nonzero)
  from assms(4) show ?thesis
    unfolding compacted_from_def
    using compacts_nonzero [OF b len(1) assms(2)] compacts_nonzero [OF b len(2) assms(2)]
      compacts_nonzero [OF b len(3) assms(2)] compacts_nonzero [OF b len(4) assms(2)] k
    by simp
qed

lemma compacted_from_run:
  assumes "int b < NBin P" and "NCell P ! b = 0" and "allocated P"
    and n: "n = nat (NBin P)" and s: "s = find_b_up (NCell P) n (b + 1) - b"
    and c: "compacted_from b (run_removed b n s P) P'"
  shows "compacted_from b P P'"
proof -
  have b: "b < n" using assms(1) n by simp
  have zero: "NCell P ! b = 0" by (rule assms(2))
  have len: "n \<le> length (Radius P)" "n \<le> length (Data P)"
    "n \<le> length (Weight P)" "n \<le> length (NCell P)"
    using assms(3) n by (simp_all add: allocated_def)
  have n': "nat (NBin P - int s) = n - s" using n by simp
  note k = kept_length_after_run [OF b zero len(4) s]
  from c have c1: "NBin P' = int (b + length (kept (shift_down s [b + s..<n] (NCell P)) b (n - s)))"
    unfolding compacted_from_def run_removed_def by (simp add: n')
  from c have c2: "compacts (shift_down s [b + s..<n] (NCell P)) b (n - s)
                     (shift_down s [b + s..<n] (Radius P)) (Radius P')"
    unfolding compacted_from_def run_removed_def by (simp add: n')
  from c have c3: "compacts (shift_down s [b + s..<n] (NCell P)) b (n - s)
                     (shift_down s [b + s..<n] (Data P)) (Data P')"
    unfolding compacted_from_def run_removed_def by (simp add: n')
  from c have c4: "compacts (shift_down s [b + s..<n] (NCell P)) b (n - s)
                     (shift_down s [b + s..<n] (Weight P)) (Weight P')"
    unfolding compacted_from_def run_removed_def by (simp add: n')
  from c have c5: "compacts (shift_down s [b + s..<n] (NCell P)) b (n - s)
                     (shift_down s [b + s..<n] (NCell P)) (NCell P')"
    unfolding compacted_from_def run_removed_def by (simp add: n')
  from c have c6: "LogBin P' = LogBin P" "LogBinRatio P' = LogBinRatio P"
    "MaxRadius P' = MaxRadius P" "Center P' = Center P"
    unfolding compacted_from_def run_removed_def by simp_all
  have "NBin P' = int (b + length (kept (NCell P) b n))" using c1 k by simp
  moreover note compacts_run [OF b zero len(4) len(1) s c2] compacts_run [OF b zero len(4) len(2) s c3]
    compacts_run [OF b zero len(4) len(3) s c4] compacts_run [OF b zero len(4) len(4) s c5] c6
  ultimately show ?thesis
    unfolding compacted_from_def n [symmetric] by simp
qed

lemma allocated_run_removed: "allocated P \<Longrightarrow> allocated (run_removed b n s P)"
proof -
  assume a: "allocated P"
  have "nat (NBin P - int s) \<le> nat (NBin P)" by simp
  with a show ?thesis
    unfolding allocated_def run_removed_def by (simp del: nat_diff_distrib' nat_diff_distrib)
qed

lemma aligned_remove_run:
  assumes al: "aligned Prof" and ne: "Prof \<noteq> []" and b: "int b < NBin (Prof ! 0)"
    and zero: "NCell (Prof ! 0) ! b = 0"
  shows "aligned (remove_run b Prof)" and "int b \<le> NBin (remove_run b Prof ! 0)"
proof -
  let ?n = "nat (NBin (Prof ! 0))"
  let ?s = "find_b_up (NCell (Prof ! 0)) ?n (b + 1) - b"
  have P0: "Prof ! 0 \<in> set Prof" using ne by simp
  with al have a0: "allocated (Prof ! 0)" by (simp add: aligned_def)
  have bn: "b < ?n" using b by simp
  have l0: "?n \<le> length (NCell (Prof ! 0))" using a0 by (simp add: allocated_def)
  have s: "b + ?s \<le> ?n"
    by (rule kept_after_run(2) [OF bn zero l0 l0 refl])
  have r0: "remove_run b Prof ! 0 = run_removed b ?n ?s (Prof ! 0)"
    using ne by (simp add: remove_run_map)
  show "int b \<le> NBin (remove_run b Prof ! 0)"
    using s bn by (simp add: r0 run_removed_def)
  show "aligned (remove_run b Prof)"
    unfolding aligned_def r0
  proof
    fix Q assume "Q \<in> set (remove_run b Prof)"
    then obtain P where P: "P \<in> set Prof" and Q: "Q = run_removed b ?n ?s P"
      by (auto simp: remove_run_map)
    from al P have "NBin P = NBin (Prof ! 0)" "NCell P = NCell (Prof ! 0)" "allocated P"
      by (simp_all add: aligned_def)
    then have "NBin Q = NBin (run_removed b ?n ?s (Prof ! 0))"
      "NCell Q = NCell (run_removed b ?n ?s (Prof ! 0))" "allocated Q"
      unfolding Q by (simp_all add: allocated_run_removed) (simp_all add: run_removed_def)
    then show "NBin Q = NBin (run_removed b ?n ?s (Prof ! 0))
               \<and> NCell Q = NCell (run_removed b ?n ?s (Prof ! 0)) \<and> allocated Q"
      by blast
  qed
qed

text \<open>The loop of lines 410--440 from \<open>b\<close> on removes the empty bins of every profile.\<close>

lemma remove_empty_compacts:
  "aligned Prof \<Longrightarrow> int b \<le> NBin (Prof ! 0) \<Longrightarrow>
   list_all2 (compacted_from b) Prof (remove_empty b Prof)"
proof (induction b Prof rule: remove_empty.induct)
  case (1 b Prof)
  show ?case
  proof (cases "Prof \<noteq> [] \<and> int b < NBin (Prof ! 0)")
    case False
    then have eq: "remove_empty b Prof = Prof" by (subst remove_empty.simps) auto
    have "compacted_from b P P" if "P \<in> set Prof" for P
    proof -
      from that have "Prof \<noteq> []" by auto
      with False "1.prems"(2) have "NBin (Prof ! 0) = int b" by simp
      with that "1.prems"(1) have "NBin P = int b" by (simp add: aligned_def)
      then show ?thesis by (rule compacted_from_end)
    qed
    then show ?thesis unfolding eq by (simp add: list_all2_same)
  next
    case True
    show ?thesis
    proof (cases "NCell (Prof ! 0) ! b \<noteq> 0")
      case nz: True
      then have eq: "remove_empty b Prof = remove_empty (Suc b) Prof"
        using True by (subst remove_empty.simps) simp
      have "list_all2 (compacted_from (Suc b)) Prof (remove_empty (Suc b) Prof)"
        using "1.IH"(1) [OF True nz "1.prems"(1)] True by simp
      then show ?thesis
        unfolding eq
      proof (rule list.rel_mono_strong)
        fix P P' assume "P \<in> set Prof" and c: "compacted_from (Suc b) P P'"
        with "1.prems"(1) have "NBin P = NBin (Prof ! 0)" "NCell P = NCell (Prof ! 0)" "allocated P"
          by (simp_all add: aligned_def)
        with True nz c show "compacted_from b P P'"
          by (auto intro: compacted_from_nonzero [of b P P'])
      qed
    next
      case z: False
      then have zero: "NCell (Prof ! 0) ! b = 0" by simp
      have eq: "remove_empty b Prof = remove_empty b (remove_run b Prof)"
        using True z by (subst remove_empty.simps) simp
      from True have ne: "Prof \<noteq> []" and b: "int b < NBin (Prof ! 0)" by simp_all
      note al' = aligned_remove_run [OF "1.prems"(1) ne b zero]
      let ?n = "nat (NBin (Prof ! 0))"
      let ?s = "find_b_up (NCell (Prof ! 0)) ?n (b + 1) - b"
      have "list_all2 (compacted_from b) (remove_run b Prof) (remove_empty b (remove_run b Prof))"
        using "1.IH"(2) [OF True z al'] .
      then have "list_all2 (\<lambda>P. compacted_from b (run_removed b ?n ?s P)) Prof
                   (remove_empty b (remove_run b Prof))"
        by (simp add: remove_run_map list_all2_map1)
      then show ?thesis
        unfolding eq
      proof (rule list.rel_mono_strong)
        fix P P' assume "P \<in> set Prof"
          and c: "compacted_from b (run_removed b ?n ?s P) P'"
        with "1.prems"(1) have P: "NBin P = NBin (Prof ! 0)" "NCell P = NCell (Prof ! 0)" "allocated P"
          by (simp_all add: aligned_def)
        show "compacted_from b P P'"
          using b zero c P by (auto intro: compacted_from_run [of b P ?n ?s P'])
      qed
    qed
  qed
qed

section \<open>The flag \<open>RemoveEmpty\<close> is read only after the broadcast\<close>

lemma radius_of_bin_RemoveEmpty: "radius_of_bin env (a\<lparr>RemoveEmpty := x\<rparr>) = radius_of_bin env a"
  by (intro ext) (simp add: radius_of_bin_def)

lemma set_NBin_MaxRadius_RemoveEmpty:
  "set_NBin_MaxRadius env (a\<lparr>RemoveEmpty := x\<rparr>) = set_NBin_MaxRadius env a"
  by (intro ext) (simp add: set_NBin_MaxRadius_def split: sum.splits)

lemma record_params_RemoveEmpty: "record_params (a\<lparr>RemoveEmpty := x\<rparr>) = record_params a"
  by (intro ext) (simp add: record_params_def Let_def)

lemma geometry_RemoveEmpty: "geometry env (a\<lparr>RemoveEmpty := x\<rparr>) = geometry env a"
  unfolding geometry_def geometry_p_def radius_of_bin_RemoveEmpty set_NBin_MaxRadius_RemoveEmpty
    record_params_RemoveEmpty ..

lemma levels_RemoveEmpty: "levels env (a\<lparr>RemoveEmpty := x\<rparr>) = levels env a"
  by (simp add: levels_def Let_def)

lemma patch_cells_RemoveEmpty:
  "patch_cells env A (a\<lparr>RemoveEmpty := x\<rparr>) = patch_cells env A a"
  by (intro ext) (simp add: patch_cells_def Let_def)

lemma thread_cells_RemoveEmpty:
  "thread_cells env R (a\<lparr>RemoveEmpty := x\<rparr>) = thread_cells env R a"
  unfolding thread_cells_def level_cells_def patch_cells_RemoveEmpty levels_RemoveEmpty ..

lemma bin_index_RemoveEmpty: "bin_index env (a\<lparr>RemoveEmpty := x\<rparr>) = bin_index env a"
  by (intro ext) (simp add: bin_index_def)

lemma cell_bin_RemoveEmpty: "cell_bin env (a\<lparr>RemoveEmpty := x\<rparr>) = cell_bin env a"
  unfolding cell_bin_def bin_index_RemoveEmpty ..

lemma add_cell_p_RemoveEmpty: "add_cell_p env A (a\<lparr>RemoveEmpty := x\<rparr>) = add_cell_p env A a"
  by (intro ext) (simp add: add_cell_p_def Let_def)

lemma cell_step_RemoveEmpty:
  "cell_step env A (a\<lparr>RemoveEmpty := x\<rparr>) = cell_step env A a"
  unfolding cell_step_def cell_bin_RemoveEmpty add_cell_p_RemoveEmpty ..

lemma check_params_RemoveEmpty: "check_params env (a\<lparr>RemoveEmpty := x\<rparr>) = check_params env a"
  by (simp add: check_params_def)

lemma local_profile_RemoveEmpty:
  "local_profile env (a\<lparr>RemoveEmpty := x\<rparr>) = local_profile env a"
  unfolding local_profile_def thread_run_def check_params_RemoveEmpty geometry_RemoveEmpty
    thread_cells_RemoveEmpty cell_step_RemoveEmpty ..

lemma normalize_RemoveEmpty: "normalize (a\<lparr>RemoveEmpty := x\<rparr>) = normalize a"
  by (intro ext) (simp add: normalize_def)

lemma update_MaxRadius_RemoveEmpty:
  "update_MaxRadius (a\<lparr>RemoveEmpty := x\<rparr>) = update_MaxRadius a"
  by (intro ext) (simp add: update_MaxRadius_def Let_def)

lemma finish_flag:
  "finish (a\<lparr>RemoveEmpty := x\<rparr>) Prof
   = map_err (update_MaxRadius a) (if x then remove_empty 0 Prof else Prof)"
  by (simp add: finish_def update_MaxRadius_RemoveEmpty)

text \<open>The routine with the flag set to \<open>x\<close>, in terms of the reduced profiles.\<close>

lemma Aux_ComputeProfile_flag:
  assumes ne: "ranks \<noteq> []" and len: "\<forall>R\<in>set ranks. length (Prof_in R) = NProf"
    and loc: "map_err (local_profile env a) ranks = Inr locals"
  shows "Aux_ComputeProfile env (a\<lparr>RemoveEmpty := x\<rparr>) ranks
         = map_err (\<lambda>R. map_err (update_MaxRadius a)
                       (if x then remove_empty 0 (map (reduced env a ranks R) [0..<NProf])
                        else map (reduced env a ranks R) [0..<NProf])) ranks"
proof -
  let ?L = "\<lambda>R. map (accumulated env a R) [0..<length (Prof_in R)]"
  let ?ax = "a\<lparr>RemoveEmpty := x\<rparr>"
  from map_err_Inr [OF loc] have ll: "length locals = length ranks"
    and each: "\<And>i. i < length ranks \<Longrightarrow> local_profile env a (ranks ! i) = Inr (locals ! i)"
    by simp_all
  have locals: "locals = map ?L ranks"
  proof (rule nth_equalityI)
    show "length locals = length (map ?L ranks)" using ll by simp
  next
    fix i assume "i < length locals"
    then have i: "i < length ranks" using ll by simp
    from local_profile_Inr(1) [OF each [OF i]] i
    show "locals ! i = map ?L ranks ! i" by simp
  qed
  have ne': "locals \<noteq> []" using ne ll by auto
  have "Aux_ComputeProfile env ?ax ranks
        = map_err (\<lambda>Prof. finish ?ax (bcast (normalize a (reduce_root locals)) Prof)) locals"
    using loc ne'
    by (simp add: Aux_ComputeProfile_def Let_def local_profile_RemoveEmpty normalize_RemoveEmpty)
  also have "\<dots> = map_err (\<lambda>Prof. finish ?ax (bcast (map (reduced env a ranks (hd ranks)) [0..<NProf]) Prof))
                     (map ?L ranks)"
    unfolding locals normalize_reduce_root [OF ne len] ..
  also have "\<dots> = map_err (\<lambda>R. finish ?ax (bcast (map (reduced env a ranks (hd ranks)) [0..<NProf]) (?L R)))
                     ranks"
    by (rule map_err_map)
  also have "\<dots> = map_err (\<lambda>R. finish ?ax (map (reduced env a ranks R) [0..<NProf])) ranks"
    using len by (intro map_err_cong) (simp add: bcast_reduced)
  finally show ?thesis by (simp only: finish_flag)
qed

lemma Aux_ComputeProfile_flag_Inl:
  assumes "map_err (local_profile env a) ranks = Inl e"
  shows "Aux_ComputeProfile env (a\<lparr>RemoveEmpty := x\<rparr>) ranks = Inl e"
  using assms by (simp add: Aux_ComputeProfile_def local_profile_RemoveEmpty)

section \<open>The reduced profiles\<close>

lemma reduced_fields:
  "NBin (reduced env a ranks R p) = geometry_NBin env a"
  "Radius (reduced env a ranks R p) = map (radius_of_bin env a) [0..<nat (geometry_NBin env a)]"
  "NCell (reduced env a ranks R p) = map (total_NCell env a ranks) [0..<nat (geometry_NBin env a)]"
  "Weight (reduced env a ranks R p) = map (total_Weight env a ranks p) [0..<nat (geometry_NBin env a)]"
  "Data (reduced env a ranks R p)
   = map (\<lambda>b. normalized_value (TVar a ! p) (total_NCell env a ranks b)
                 (total_Data env a ranks p b) (total_Weight env a ranks p b))
       [0..<nat (geometry_NBin env a)]"
  "MaxRadius (reduced env a ranks R p) = geometry_MaxRadius env a"
  "LogBin (reduced env a ranks R p) = LogBin_in a"
  by (simp_all add: reduced_def configured_fields geometry_MaxRadius_def)

lemma allocated_reduced: "allocated (reduced env a ranks R p)"
  by (simp add: allocated_def reduced_fields)

lemma aligned_reduced: "aligned (map (reduced env a ranks R) [0..<NProf])"
  by (auto simp: aligned_def reduced_fields allocated_reduced)

section \<open>The profiles when the call returns\<close>

text \<open>The value lines 448--449 store in \<open>MaxRadius\<close>.\<close>

definition extrapolated :: "args_t \<Rightarrow> Profile_t \<Rightarrow> real" where
  "extrapolated a P =
     (if LogBin_in a then rnd (rnd (SQR (Radius P ! nat (NBin P - 1))) / Radius P ! nat (NBin P - 2))
      else rnd (rnd (2.0 * Radius P ! nat (NBin P - 1)) - Radius P ! nat (NBin P - 2)))"

lemma update_MaxRadius_Inr:
  "2 \<le> NBin P \<Longrightarrow> NBin P \<le> int (length (Radius P)) \<Longrightarrow>
   update_MaxRadius a P = Inr (P\<lparr>MaxRadius := extrapolated a P\<rparr>)"
  by (simp add: update_MaxRadius_def extrapolated_def Let_def)

lemma update_MaxRadius_Inl: "NBin P < 2 \<Longrightarrow> update_MaxRadius a P = Inl OutOfBounds"
  by (simp add: update_MaxRadius_def Let_def)

lemma update_MaxRadius_cases:
  assumes "update_MaxRadius a P = Inr P'"
  shows "2 \<le> NBin P" and "NBin P \<le> int (length (Radius P))"
    and "P' = P\<lparr>MaxRadius := extrapolated a P\<rparr>"
  using assms by (auto simp: update_MaxRadius_def extrapolated_def Let_def split: if_splits)

text \<open>
  What the holder of a profile reads: the first \<open>NBin\<close> entries of each array. (The
  removal of empty bins lowers \<open>NBin\<close> and leaves the arrays at their allocated
  length.)
\<close>

definition visible :: "Profile_t \<Rightarrow> Profile_t" where
  "visible P =
     P\<lparr>Radius := take (nat (NBin P)) (Radius P), Data := take (nat (NBin P)) (Data P),
       Weight := take (nat (NBin P)) (Weight P), NCell := take (nat (NBin P)) (NCell P)\<rparr>"

text \<open>
  The removal of the empty bins as the specification words it: the bins with a zero
  cell count are dropped from all four arrays together and \<open>NBin\<close> shrinks.
\<close>

definition remove_empty_bins :: "Profile_t \<Rightarrow> Profile_t" where
  "remove_empty_bins P =
     (let keep = filter (\<lambda>b. NCell P ! b \<noteq> 0) [0..<nat (NBin P)]
      in P\<lparr>NBin := int (length keep),
           Radius := map (nth (Radius P)) keep, Data := map (nth (Data P)) keep,
           Weight := map (nth (Weight P)) keep, NCell := map (nth (NCell P)) keep\<rparr>)"

lemma visible_exact:
  "length (Radius P) = nat (NBin P) \<Longrightarrow> length (Data P) = nat (NBin P) \<Longrightarrow>
   length (Weight P) = nat (NBin P) \<Longrightarrow> length (NCell P) = nat (NBin P) \<Longrightarrow> visible P = P"
  by (simp add: visible_def)

lemma visible_reduced: "visible (reduced env a ranks R p) = reduced env a ranks R p"
  by (rule visible_exact) (simp_all add: reduced_fields)

lemma compacted_visible:
  assumes "compacted_from 0 P P'"
  shows "visible P' = remove_empty_bins P"
proof -
  let ?keep = "filter (\<lambda>b. NCell P ! b \<noteq> 0) [0..<nat (NBin P)]"
  from assms have n: "NBin P' = int (length ?keep)"
    and R: "take (length ?keep) (Radius P') = map (nth (Radius P)) ?keep"
    and D: "take (length ?keep) (Data P') = map (nth (Data P)) ?keep"
    and W: "take (length ?keep) (Weight P') = map (nth (Weight P)) ?keep"
    and N: "take (length ?keep) (NCell P') = map (nth (NCell P)) ?keep"
    and fr: "LogBin P' = LogBin P" "LogBinRatio P' = LogBinRatio P"
      "MaxRadius P' = MaxRadius P" "Center P' = Center P"
    by (simp_all add: compacted_from_def compacts_def kept_def)
  show ?thesis
    by (rule Profile_t.equality)
       (simp_all add: visible_def remove_empty_bins_def Let_def n R D W N fr)
qed

lemma extrapolated_visible:
  "2 \<le> NBin P \<Longrightarrow> extrapolated a (visible P) = extrapolated a P"
  by (simp add: extrapolated_def visible_def)

lemma visible_MaxRadius: "visible (P\<lparr>MaxRadius := v\<rparr>) = (visible P)\<lparr>MaxRadius := v\<rparr>"
  by (simp add: visible_def)

text \<open>
  Profile \<open>p\<close> of rank \<open>R\<close> at the end of a call with the flag \<open>RemoveEmpty = x\<close>,
  as its holder reads it.
\<close>

definition final :: "bool \<Rightarrow> env_t \<Rightarrow> args_t \<Rightarrow> rank_t list \<Rightarrow> rank_t \<Rightarrow> nat \<Rightarrow> Profile_t" where
  "final x env a ranks R p =
     (let Q = (if x then remove_empty_bins (reduced env a ranks R p)
               else reduced env a ranks R p)
      in Q\<lparr>MaxRadius := extrapolated a Q\<rparr>)"

lemma Aux_ComputeProfile_Inr_local:
  "Aux_ComputeProfile env a ranks = Inr res \<Longrightarrow> \<exists>locals. map_err (local_profile env a) ranks = Inr locals"
  by (auto simp: Aux_ComputeProfile_def split: sum.splits)

text \<open>A call that returns leaves every rank with the profiles \<open>final\<close>.\<close>

lemma Aux_ComputeProfile_final:
  assumes ne: "ranks \<noteq> []" and len: "\<forall>R\<in>set ranks. length (Prof_in R) = NProf"
    and ret: "Aux_ComputeProfile env (a\<lparr>RemoveEmpty := x\<rparr>) ranks = Inr res"
  shows "length res = length ranks"
    and "r < length ranks \<Longrightarrow> length (res ! r) = NProf"
    and "r < length ranks \<Longrightarrow> p < NProf \<Longrightarrow> visible (res ! r ! p) = final x env a ranks (ranks ! r) p"
    and "r < length ranks \<Longrightarrow> p < NProf \<Longrightarrow> 2 \<le> NBin (res ! r ! p)"
proof -
  from Aux_ComputeProfile_Inr_local [OF ret] obtain locals
    where loc: "map_err (local_profile env a) ranks = Inr locals"
    by (auto simp: local_profile_RemoveEmpty)
  let ?Prof = "\<lambda>R. map (reduced env a ranks R) [0..<NProf]"
  let ?X = "\<lambda>R. if x then remove_empty 0 (?Prof R) else ?Prof R"
  from ret have m: "map_err (\<lambda>R. map_err (update_MaxRadius a) (?X R)) ranks = Inr res"
    by (simp only: Aux_ComputeProfile_flag [OF ne len loc])
  from map_err_Inr [OF m] have lres: "length res = length ranks"
    and rk: "\<And>r. r < length ranks \<Longrightarrow> map_err (update_MaxRadius a) (?X (ranks ! r)) = Inr (res ! r)"
    by simp_all
  from map_err_Inr [OF loc] ne have "local_profile env a (ranks ! 0) = Inr (locals ! 0)"
    by simp
  from local_profile_Inr(2,3) [OF this] len ne have NProf: "0 < NProf" and n: "0 \<le> geometry_NBin env a"
    by auto
  have rel: "list_all2 (\<lambda>Q X. visible X = (if x then remove_empty_bins Q else Q)) (?Prof R) (?X R)"
    for R
  proof (cases x)
    case True
    have "list_all2 (compacted_from 0) (?Prof R) (remove_empty 0 (?Prof R))"
      using NProf n by (intro remove_empty_compacts [OF aligned_reduced]) (simp add: reduced_fields)
    then show ?thesis
      using True by (auto elim!: list_all2_mono simp: compacted_visible)
  next
    case False
    then show ?thesis
      by (simp add: list_all2_same visible_reduced)
  qed
  have lr: "length (res ! r) = NProf" if r: "r < length ranks" for r
  proof -
    from list_all2_lengthD [OF rel [of "ranks ! r"]] have "length (?X (ranks ! r)) = NProf" by simp
    with map_err_Inr [OF rk [OF r]] show ?thesis by simp
  qed
  have both: "visible (res ! r ! p) = final x env a ranks (ranks ! r) p \<and> 2 \<le> NBin (res ! r ! p)"
    if r: "r < length ranks" and p: "p < NProf" for r p
  proof -
    let ?R = "ranks ! r"
    from list_all2_lengthD [OF rel [of ?R]] have lX: "length (?X ?R) = NProf" by simp
    from map_err_Inr [OF rk [OF r]] lX p
    have up: "update_MaxRadius a (?X ?R ! p) = Inr (res ! r ! p)" by simp
    note u = update_MaxRadius_cases [OF up]
    from list_all2_nthD2 [OF rel [of ?R], of p] lX p
    have vis: "visible (?X ?R ! p)
               = (if x then remove_empty_bins (reduced env a ranks ?R p) else reduced env a ranks ?R p)"
      by simp
    have "visible (res ! r ! p) = (visible (?X ?R ! p))\<lparr>MaxRadius := extrapolated a (visible (?X ?R ! p))\<rparr>"
      using u by (simp add: visible_MaxRadius extrapolated_visible)
    then have "visible (res ! r ! p) = final x env a ranks ?R p"
      by (simp add: vis final_def Let_def)
    moreover have "2 \<le> NBin (res ! r ! p)" using u by simp
    ultimately show ?thesis by simp
  qed
  show "length res = length ranks" by (rule lres)
  show "r < length ranks \<Longrightarrow> length (res ! r) = NProf" by (rule lr)
  show "r < length ranks \<Longrightarrow> p < NProf \<Longrightarrow> visible (res ! r ! p) = final x env a ranks (ranks ! r) p"
    using both by simp
  show "r < length ranks \<Longrightarrow> p < NProf \<Longrightarrow> 2 \<le> NBin (res ! r ! p)"
    using both by simp
qed

section \<open>Removing the empty bins by hand\<close>

text \<open>
  The recomputation of the maximum radius as the specification words it: from the
  last two radii, linearly (\<open>2 * radius[last] - radius[last - 1]\<close>) or geometrically
  (\<open>radius[last]^2 / radius[last - 1]\<close>); it needs two bins.
\<close>

definition recompute_max_radius :: "args_t \<Rightarrow> Profile_t \<Rightarrow> error + Profile_t" where
  "recompute_max_radius a P =
     (if NBin P < 2 then Inl OutOfBounds
      else (let last = nat (NBin P) - 1 in
            Inr (P\<lparr>MaxRadius :=
                    (if LogBin_in a then rnd (rnd ((Radius P ! last)\<^sup>2) / Radius P ! (last - 1))
                     else rnd (rnd (2 * Radius P ! last) - Radius P ! (last - 1)))\<rparr>)))"

text \<open>The manual removal applied to the result of a call, for every rank and profile.\<close>

definition remove_by_hand :: "args_t \<Rightarrow> Profile_t list list \<Rightarrow> error + Profile_t list list" where
  "remove_by_hand a res =
     map_err (map_err (\<lambda>P. recompute_max_radius a (remove_empty_bins P))) res"

lemma recompute_max_radius_MaxRadius:
  "recompute_max_radius a (P\<lparr>MaxRadius := v\<rparr>) = recompute_max_radius a P"
  by (simp add: recompute_max_radius_def Let_def)

lemma remove_empty_bins_MaxRadius:
  "remove_empty_bins (P\<lparr>MaxRadius := v\<rparr>) = (remove_empty_bins P)\<lparr>MaxRadius := v\<rparr>"
  by (simp add: remove_empty_bins_def Let_def)

lemma nat_minus_1: "2 \<le> n \<Longrightarrow> nat (n - 1) = nat n - 1"
  by simp

lemma nat_minus_2: "2 \<le> n \<Longrightarrow> nat (n - 2) = nat n - 1 - 1"
  by simp

text \<open>On what the holder reads, the recomputation is the update of lines 443--450.\<close>

lemma recompute_visible:
  assumes "NBin P \<le> int (length (Radius P))"
  shows "recompute_max_radius a (visible P)
         = (case update_MaxRadius a P of Inl e \<Rightarrow> Inl e | Inr X \<Rightarrow> Inr (visible X))"
proof (cases "NBin P < 2")
  case True
  then show ?thesis
    by (simp add: recompute_max_radius_def update_MaxRadius_Inl visible_def)
next
  case False
  then have n: "2 \<le> NBin P" by simp
  have i1: "nat (NBin P) - 1 < nat (NBin P)" and i2: "nat (NBin P) - 1 - 1 < nat (NBin P)"
    using n by simp_all
  have "recompute_max_radius a (visible P) = Inr ((visible P)\<lparr>MaxRadius := extrapolated a P\<rparr>)"
    using n i1 i2
    by (simp add: recompute_max_radius_def visible_def extrapolated_def Let_def SQR_def
          power2_eq_square nat_minus_1 nat_minus_2 del: nat_diff_distrib' nat_diff_distrib)
  then show ?thesis
    using n assms by (simp add: update_MaxRadius_Inr visible_MaxRadius)
qed

text \<open>Two runs over related lists fail together or give related results.\<close>

lemma map_err_rel:
  "list_all2 (\<lambda>x y. f x = (case g y of Inl e \<Rightarrow> Inl e | Inr z \<Rightarrow> Inr (h z))) xs ys \<Longrightarrow>
   map_err f xs = (case map_err g ys of Inl e \<Rightarrow> Inl e | Inr zs \<Rightarrow> Inr (map h zs))"
  by (induction rule: list_all2_induct) (simp_all split: sum.splits)

lemma map_err_const_Inl:
  "xs \<noteq> [] \<Longrightarrow> (\<And>x. x \<in> set xs \<Longrightarrow> f x = Inl e) \<Longrightarrow> map_err f xs = Inl e"
  by (cases xs) simp_all

text \<open>One rank: removing by hand after the update, against the update after the removal.\<close>

lemma rank_round_trip:
  assumes NProf: "0 < NProf" and n: "2 \<le> geometry_NBin env a"
  shows "map_err (\<lambda>P. recompute_max_radius a (remove_empty_bins P))
           (map (\<lambda>P. P\<lparr>MaxRadius := extrapolated a P\<rparr>) (map (reduced env a ranks R) [0..<NProf]))
         = (case map_err (update_MaxRadius a) (remove_empty 0 (map (reduced env a ranks R) [0..<NProf])) of
              Inl e \<Rightarrow> Inl e | Inr zs \<Rightarrow> Inr (map visible zs))"
proof (rule map_err_rel)
  let ?Prof = "map (reduced env a ranks R) [0..<NProf]"
  have c: "list_all2 (compacted_from 0) ?Prof (remove_empty 0 ?Prof)"
    using NProf n by (intro remove_empty_compacts [OF aligned_reduced]) (simp add: reduced_fields)
  have "list_all2 (\<lambda>P X. recompute_max_radius a (remove_empty_bins (P\<lparr>MaxRadius := extrapolated a P\<rparr>))
                          = (case update_MaxRadius a X of Inl e \<Rightarrow> Inl e | Inr z \<Rightarrow> Inr (visible z)))
          ?Prof (remove_empty 0 ?Prof)"
    using c
  proof (rule list_all2_mono)
    fix P X assume cf: "compacted_from 0 P X"
    then have nX: "NBin X = int (length (kept (NCell P) 0 (nat (NBin P))))"
      and tk: "take (length (kept (NCell P) 0 (nat (NBin P)))) (Radius X)
           = map (nth (Radius P)) (kept (NCell P) 0 (nat (NBin P)))"
      by (simp_all add: compacted_from_def compacts_def)
    from tk have "length (take (length (kept (NCell P) 0 (nat (NBin P)))) (Radius X))
                  = length (kept (NCell P) 0 (nat (NBin P)))"
      by simp
    then have "length (kept (NCell P) 0 (nat (NBin P))) \<le> length (Radius X)"
      by simp
    then have le: "NBin X \<le> int (length (Radius X))"
      by (simp add: nX)
    show "recompute_max_radius a (remove_empty_bins (P\<lparr>MaxRadius := extrapolated a P\<rparr>))
          = (case update_MaxRadius a X of Inl e \<Rightarrow> Inl e | Inr z \<Rightarrow> Inr (visible z))"
      by (simp add: remove_empty_bins_MaxRadius recompute_max_radius_MaxRadius
            compacted_visible [OF cf, symmetric] recompute_visible [OF le])
  qed
  then show "list_all2 (\<lambda>x y. recompute_max_radius a (remove_empty_bins x)
                          = (case update_MaxRadius a y of Inl e \<Rightarrow> Inl e | Inr z \<Rightarrow> Inr (visible z)))
          (map (\<lambda>P. P\<lparr>MaxRadius := extrapolated a P\<rparr>) ?Prof) (remove_empty 0 ?Prof)"
    by (simp add: list_all2_map1)
qed

lemma kept_length_le: "length (kept ncell b n) \<le> n - b"
  unfolding kept_def by (rule order_trans [OF length_filter_le]) simp

text \<open>
  Claim C6. Computing the profiles with \<open>RemoveEmpty = false\<close> and then removing the
  bins with a zero cell count by hand (all four arrays together, \<open>NBin\<close> shrunk, the
  maximum radius recomputed from the last two radii) gives what the call with
  \<open>RemoveEmpty = true\<close> leaves in the first \<open>NBin\<close> entries of the arrays; the two
  sides also fail together. All ranks pass the same number of profiles.
\<close>

theorem remove_empty_round_trip:
  assumes ne: "ranks \<noteq> []" and len: "\<forall>R\<in>set ranks. length (Prof_in R) = NProf"
  shows "(case Aux_ComputeProfile env (a\<lparr>RemoveEmpty := False\<rparr>) ranks of
            Inl e \<Rightarrow> Inl e | Inr res \<Rightarrow> remove_by_hand a res)
         = (case Aux_ComputeProfile env (a\<lparr>RemoveEmpty := True\<rparr>) ranks of
              Inl e \<Rightarrow> Inl e | Inr res \<Rightarrow> Inr (map (map visible) res))"
proof (cases "map_err (local_profile env a) ranks")
  case (Inl e)
  then show ?thesis by (simp add: Aux_ComputeProfile_flag_Inl)
next
  case (Inr locals)
  let ?Prof = "\<lambda>R. map (reduced env a ranks R) [0..<NProf]"
  let ?upd = "\<lambda>P. P\<lparr>MaxRadius := extrapolated a P\<rparr>"
  let ?by_hand = "\<lambda>P. recompute_max_radius a (remove_empty_bins P)"
  from map_err_Inr [OF Inr] ne have "local_profile env a (ranks ! 0) = Inr (locals ! 0)"
    by simp
  from local_profile_Inr(2,3) [OF this] len ne have NProf: "0 < NProf" and n0: "0 \<le> geometry_NBin env a"
    by auto
  have F: "Aux_ComputeProfile env (a\<lparr>RemoveEmpty := False\<rparr>) ranks
           = map_err (\<lambda>R. map_err (update_MaxRadius a) (?Prof R)) ranks"
    using Aux_ComputeProfile_flag [OF ne len Inr, of False] by simp
  have T: "Aux_ComputeProfile env (a\<lparr>RemoveEmpty := True\<rparr>) ranks
           = map_err (\<lambda>R. map_err (update_MaxRadius a) (remove_empty 0 (?Prof R))) ranks"
    using Aux_ComputeProfile_flag [OF ne len Inr, of True] by simp
  have c: "list_all2 (compacted_from 0) (?Prof R) (remove_empty 0 (?Prof R))" for R
    using NProf n0 by (intro remove_empty_compacts [OF aligned_reduced]) (simp add: reduced_fields)
  show ?thesis
  proof (cases "geometry_NBin env a < 2")
    case True
    have innerF: "map_err (update_MaxRadius a) (?Prof R) = Inl OutOfBounds" for R
      using NProf True by (intro map_err_const_Inl) (auto simp: update_MaxRadius_Inl reduced_fields)
    have F': "Aux_ComputeProfile env (a\<lparr>RemoveEmpty := False\<rparr>) ranks = Inl OutOfBounds"
      unfolding F by (rule map_err_const_Inl [OF ne]) (rule innerF)
    have innerT: "map_err (update_MaxRadius a) (remove_empty 0 (?Prof R)) = Inl OutOfBounds" for R
    proof (rule map_err_const_Inl)
      from list_all2_lengthD [OF c [of R]] NProf show "remove_empty 0 (?Prof R) \<noteq> []" by auto
    next
      fix X assume "X \<in> set (remove_empty 0 (?Prof R))"
      then obtain i where i: "i < length (remove_empty 0 (?Prof R))"
        and X: "X = remove_empty 0 (?Prof R) ! i"
        by (auto simp: in_set_conv_nth)
      from list_all2_nthD2 [OF c [of R] i] list_all2_lengthD [OF c [of R]] i
      have "compacted_from 0 (reduced env a ranks R i) X" by (simp add: X)
      then have "NBin X = int (length (kept (NCell (reduced env a ranks R i)) 0 (nat (geometry_NBin env a))))"
        by (simp add: compacted_from_def reduced_fields)
      also have "\<dots> \<le> int (nat (geometry_NBin env a))"
        using kept_length_le [of "NCell (reduced env a ranks R i)" 0 "nat (geometry_NBin env a)"]
        by (simp only: of_nat_le_iff diff_zero)
      finally have "NBin X < 2" using True n0 by simp
      then show "update_MaxRadius a X = Inl OutOfBounds" by (rule update_MaxRadius_Inl)
    qed
    have T': "Aux_ComputeProfile env (a\<lparr>RemoveEmpty := True\<rparr>) ranks = Inl OutOfBounds"
      unfolding T by (rule map_err_const_Inl [OF ne]) (rule innerT)
    show ?thesis by (simp add: F' T')
  next
    case False
    then have n: "2 \<le> geometry_NBin env a" by simp
    have inner: "map_err (update_MaxRadius a) (?Prof R) = Inr (map ?upd (?Prof R))" for R
      by (rule map_err_all_Inr) (auto simp: update_MaxRadius_Inr reduced_fields n)
    have F': "Aux_ComputeProfile env (a\<lparr>RemoveEmpty := False\<rparr>) ranks
                   = Inr (map (\<lambda>R. map ?upd (?Prof R)) ranks)"
      unfolding F by (rule map_err_all_Inr) (rule inner)
    have "remove_by_hand a (map (\<lambda>R. map ?upd (?Prof R)) ranks)
          = map_err (\<lambda>R. map_err ?by_hand (map ?upd (?Prof R))) ranks"
      unfolding remove_by_hand_def by (rule map_err_map)
    also have "\<dots> = map_err (\<lambda>R. case map_err (update_MaxRadius a) (remove_empty 0 (?Prof R)) of
                                   Inl e \<Rightarrow> Inl e | Inr zs \<Rightarrow> Inr (map visible zs)) ranks"
      by (simp only: rank_round_trip [OF NProf n])
    also have "\<dots> = (case map_err (\<lambda>R. map_err (update_MaxRadius a) (remove_empty 0 (?Prof R))) ranks of
                       Inl e \<Rightarrow> Inl e | Inr res \<Rightarrow> Inr (map (map visible) res))"
      by (rule map_err_rel) (simp add: list_all2_same)
    finally show ?thesis by (simp add: F' T)
  qed
qed

section \<open>When the call returns\<close>

text \<open>The quantity codes the switch of lines 224--308 knows.\<close>

definition supported :: "quantity \<Rightarrow> bool" where
  "supported q = (case q of OtherQuantity x \<Rightarrow> False | _ \<Rightarrow> True)"

lemma cell_quant_supported: "supported q \<Longrightarrow> \<exists>v. cell_quant env A dv c q = Inr v"
  by (cases q) (simp_all add: supported_def cell_quant_def Let_def)

lemma for_loop_ok:
  "(\<And>x s. x \<in> set xs \<Longrightarrow> \<exists>s'. body x s = Inr s') \<Longrightarrow> \<exists>s'. for_loop xs body s = Inr s'"
proof (induction xs arbitrary: s)
  case Nil
  then show ?case by simp
next
  case (Cons x xs)
  from Cons.prems [of x s] obtain s1 where s1: "body x s = Inr s1" by auto
  from Cons.IH [of s1] Cons.prems obtain s' where "for_loop xs body s1 = Inr s'" by auto
  with s1 show ?case by simp
qed

lemma map_err_ok:
  "(\<And>x. x \<in> set xs \<Longrightarrow> \<exists>y. f x = Inr y) \<Longrightarrow> \<exists>ys. map_err f xs = Inr ys"
proof (induction xs)
  case Nil
  then show ?case by simp
next
  case (Cons x xs)
  from Cons.prems [of x] obtain y where y: "f x = Inr y" by auto
  from Cons.IH Cons.prems obtain ys where "map_err f xs = Inr ys" by auto
  with y show ?case by simp
qed

lemma add_cell_p_ok: "supported (TVar a ! p) \<Longrightarrow> \<exists>st'. add_cell_p env A a c bin p st = Inr st'"
  using cell_quant_supported [of "TVar a ! p" env A "CUBE (dh A (c_lv c))" c]
  by (auto simp: add_cell_p_def split: prod.splits)

lemma cell_step_ok:
  assumes "\<And>e. cell_bin env a r_max2 n0 c \<noteq> Inl e" and "\<And>p. p < NProf \<Longrightarrow> supported (TVar a ! p)"
  shows "\<exists>st'. cell_step env A a NProf r_max2 n0 c st = Inr st'"
proof (cases "cell_bin env a r_max2 n0 c")
  case (Inl e)
  with assms(1) [of e] show ?thesis by simp
next
  case (Inr x)
  show ?thesis
  proof (cases x)
    case None
    with Inr show ?thesis by (simp add: cell_step_def)
  next
    case (Some bin)
    have "\<exists>st'. for_loop [0..<NProf] (add_cell_p env A a c bin) st = Inr st'"
      by (rule for_loop_ok) (simp add: add_cell_p_ok assms(2))
    with Inr Some show ?thesis by (simp add: cell_step_def)
  qed
qed

text \<open>
  The bin index as the specification words it, with \<open>floor\<close>, on the quotients the
  code computes in \<^verbatim>\<open>double\<close>.
\<close>

definition bin_floor :: "env_t \<Rightarrow> args_t \<Rightarrow> real \<Rightarrow> int" where
  "bin_floor env a r =
     (if LogBin_in a then
        (if r < dr_min a then 0
         else \<lfloor>rnd (log_libm env (rnd (r / dr_min a)) / log_libm env (LogBinRatio_in a))\<rfloor> + 1)
      else \<lfloor>rnd (r / dr_min a)\<rfloor>)"

text \<open>
  With a positive bin width, and for logarithmic bins a C library whose \<^verbatim>\<open>log\<close> is
  positive at the ratio and not negative from 1 on, no bin index is negative, and the
  conversion to \<^verbatim>\<open>int\<close> is \<open>floor\<close> where the index stays in the range of
  \<^verbatim>\<open>int\<close>.
\<close>

lemma log_quotient_nonneg:
  assumes dr: "0 < dr_min a" and l1: "0 < log_libm env (LogBinRatio_in a)"
    and l2: "\<And>x. 1 \<le> x \<Longrightarrow> 0 \<le> log_libm env x" and r: "dr_min a \<le> r"
  shows "0 \<le> rnd (log_libm env (rnd (r / dr_min a)) / log_libm env (LogBinRatio_in a))"
proof -
  from r dr have "1 \<le> r / dr_min a" by simp
  then have "1 \<le> rnd (r / dr_min a)" by (rule rnd_ge_1)
  then have "0 \<le> log_libm env (rnd (r / dr_min a))" by (rule l2)
  with l1 have "0 \<le> log_libm env (rnd (r / dr_min a)) / log_libm env (LogBinRatio_in a)" by simp
  then show ?thesis by (rule rnd_nonneg)
qed

lemma bin_floor_nonneg:
  assumes dr: "0 < dr_min a" and l1: "LogBin_in a \<Longrightarrow> 0 < log_libm env (LogBinRatio_in a)"
    and l2: "\<And>x. LogBin_in a \<Longrightarrow> 1 \<le> x \<Longrightarrow> 0 \<le> log_libm env x" and r: "0 \<le> r"
  shows "0 \<le> bin_floor env a r"
proof (cases "LogBin_in a")
  case False
  have "0 \<le> rnd (r / dr_min a)" using dr r by (intro rnd_nonneg) simp
  with False show ?thesis by (simp add: bin_floor_def)
next
  case True
  show ?thesis
  proof (cases "r < dr_min a")
    case True
    with \<open>LogBin_in a\<close> show ?thesis by (simp add: bin_floor_def)
  next
    case False
    then have "dr_min a \<le> r" by simp
    from log_quotient_nonneg [OF dr l1 [OF True] l2 [OF True] this]
    show ?thesis using True False by (simp add: bin_floor_def)
  qed
qed

lemma bin_index_floor:
  assumes dr: "0 < dr_min a" and l1: "LogBin_in a \<Longrightarrow> 0 < log_libm env (LogBinRatio_in a)"
    and l2: "\<And>x. LogBin_in a \<Longrightarrow> 1 \<le> x \<Longrightarrow> 0 \<le> log_libm env x" and r: "0 \<le> r"
    and fits: "bin_floor env a r \<le> INT_MAX"
  shows "bin_index env a r = Inr (bin_floor env a r)"
proof (cases "LogBin_in a")
  case False
  have q: "0 \<le> rnd (r / dr_min a)" using dr r by (intro rnd_nonneg) simp
  then have "0 \<le> \<lfloor>rnd (r / dr_min a)\<rfloor>" by simp
  then have "INT_MIN \<le> \<lfloor>rnd (r / dr_min a)\<rfloor>" by (simp add: INT_MIN_def)
  with False q fits show ?thesis
    by (simp add: bin_index_def bin_floor_def int_of_double_def trunc_nonneg in_int_Inr)
next
  case True
  show ?thesis
  proof (cases "r < dr_min a")
    case True
    with \<open>LogBin_in a\<close> show ?thesis by (simp add: bin_index_def bin_floor_def)
  next
    case False
    let ?q = "rnd (log_libm env (rnd (r / dr_min a)) / log_libm env (LogBinRatio_in a))"
    from False have "dr_min a \<le> r" by simp
    from log_quotient_nonneg [OF dr l1 [OF True] l2 [OF True] this] have q: "0 \<le> ?q" .
    then have f0: "0 \<le> \<lfloor>?q\<rfloor>" by simp
    from fits True False have f1: "\<lfloor>?q\<rfloor> + 1 \<le> INT_MAX" by (simp add: bin_floor_def)
    have "int_of_double ?q = Inr \<lfloor>?q\<rfloor>"
      using f0 f1 by (simp add: int_of_double_def trunc_nonneg [OF q] in_int_def INT_MIN_def)
    moreover have "in_int (\<lfloor>?q\<rfloor> + 1) = Inr (\<lfloor>?q\<rfloor> + 1)"
      using f0 f1 by (simp add: in_int_def INT_MIN_def)
    ultimately show ?thesis using True False by (simp add: bin_index_def bin_floor_def)
  qed
qed

lemma cell_r2_nonneg: "0 \<le> cell_r2 c"
proof -
  have "0 \<le> rnd (SQR (c_dx c))" "0 \<le> rnd (SQR (c_dy c))" "0 \<le> rnd (SQR (c_dz c))"
    by (simp_all add: rnd_nonneg SQR_def)
  then show ?thesis by (simp add: cell_r2_def rnd_nonneg)
qed

lemma cell_r_nonneg: "0 \<le> cell_r c"
  using cell_r2_nonneg [of c] by (simp add: cell_r_def rnd_nonneg)

lemma cell_bin_valid:
  assumes dr: "0 < dr_min a" and l1: "LogBin_in a \<Longrightarrow> 0 < log_libm env (LogBinRatio_in a)"
    and l2: "\<And>x. LogBin_in a \<Longrightarrow> 1 \<le> x \<Longrightarrow> 0 \<le> log_libm env x"
    and fits: "cell_r2 c < r_max2 \<Longrightarrow> bin_floor env a (cell_r c) \<le> INT_MAX"
  shows "cell_bin env a r_max2 n0 c \<noteq> Inl e"
proof (cases "cell_r2 c < r_max2")
  case False
  then show ?thesis by (simp add: cell_bin_def)
next
  case True
  from bin_index_floor [OF dr l1 l2 cell_r_nonneg fits [OF True]]
    bin_floor_nonneg [OF dr l1 l2 cell_r_nonneg, of c]
  show ?thesis using True by (simp add: cell_bin_def)
qed

text \<open>The local phase of a rank runs through when no cell has a negative bin index and
  every quantity is supported.\<close>

lemma local_profile_ok:
  assumes chk: "check_params env a = Inr ()" and fits: "geometry_fits env a"
    and n: "0 \<le> geometry_NBin env a"
    and ne: "Prof_in R \<noteq> []" and nt: "0 < NT env"
    and bins: "\<And>c e. c \<in> set (rank_cells env R a) \<Longrightarrow>
                 cell_bin env a (rnd (SQR (geometry_MaxRadius env a))) (geometry_NBin env a) c \<noteq> Inl e"
    and sup: "\<And>p. p < length (Prof_in R) \<Longrightarrow> supported (TVar a ! p)"
  shows "local_profile env a R = Inr (map (accumulated env a R) [0..<length (Prof_in R)])"
proof -
  let ?Prof = "map (configured env a) (Prof_in R)"
  have h0: "?Prof ! 0 = configured env a (Prof_in R ! 0)" using ne by simp
  have thr: "\<exists>st. thread_run env R a ?Prof t = Inr st" if t: "t < NT env" for t
    unfolding thread_run_def h0 MaxRadius_configured NBin_configured
  proof (rule for_loop_ok)
    fix c st assume "c \<in> set (thread_cells env R a t)"
    then have "c \<in> set (rank_cells env R a)" using t by (auto simp: rank_cells_def)
    then show "\<exists>s'. cell_step env (amr R) a (length ?Prof) (rnd (SQR (geometry_MaxRadius env a)))
                       (geometry_NBin env a) c st = Inr s'"
      using sup by (intro cell_step_ok bins) simp_all
  qed
  have "\<exists>omp. map_err (thread_run env R a ?Prof) [0..<NT env] = Inr omp"
    by (rule map_err_ok) (simp add: thr)
  then obtain omp where omp: "map_err (thread_run env R a ?Prof) [0..<NT env] = Inr omp" ..
  have "local_profile env a R = Inr (sum_threads omp ?Prof)"
    using chk fits n ne nt omp by (simp add: local_profile_def geometry_ok)
  with local_profile_Inr(1) [OF this] show ?thesis by simp
qed

text \<open>The whole call returns when the local phases do and two bins remain.\<close>

lemma Aux_ComputeProfile_ok:
  assumes ne: "ranks \<noteq> []" and len: "\<forall>R\<in>set ranks. length (Prof_in R) = NProf"
    and NProf: "0 < NProf" and n0: "0 \<le> geometry_NBin env a"
    and loc: "\<And>R. R \<in> set ranks \<Longrightarrow>
                local_profile env a R = Inr (map (accumulated env a R) [0..<NProf])"
    and two: "2 \<le> (if x then int (length (kept (map (total_NCell env a ranks)
                                              [0..<nat (geometry_NBin env a)]) 0 (nat (geometry_NBin env a))))
                    else geometry_NBin env a)"
  shows "\<exists>res. Aux_ComputeProfile env (a\<lparr>RemoveEmpty := x\<rparr>) ranks = Inr res"
proof -
  let ?Prof = "\<lambda>R. map (reduced env a ranks R) [0..<NProf]"
  let ?X = "\<lambda>R. if x then remove_empty 0 (?Prof R) else ?Prof R"
  have "map_err (local_profile env a) ranks
        = Inr (map (\<lambda>R. map (accumulated env a R) [0..<NProf]) ranks)"
    by (rule map_err_all_Inr) (rule loc)
  note flag = Aux_ComputeProfile_flag [OF ne len this, of x]
  have el: "\<exists>Y. update_MaxRadius a X = Inr Y" if "X \<in> set (?X R)" for X R
  proof (cases x)
    case False
    with that two show ?thesis
      by (auto simp: update_MaxRadius_Inr reduced_fields)
  next
    case True
    have c: "list_all2 (compacted_from 0) (?Prof R) (remove_empty 0 (?Prof R))"
      using NProf n0 by (intro remove_empty_compacts [OF aligned_reduced]) (simp add: reduced_fields)
    from that True obtain i where i: "i < length (remove_empty 0 (?Prof R))"
      and X: "X = remove_empty 0 (?Prof R) ! i"
      by (auto simp: in_set_conv_nth)
    from list_all2_nthD2 [OF c i] list_all2_lengthD [OF c] i
    have cf: "compacted_from 0 (reduced env a ranks R i) X" by (simp add: X)
    let ?k = "kept (map (total_NCell env a ranks) [0..<nat (geometry_NBin env a)]) 0 (nat (geometry_NBin env a))"
    from cf have nX: "NBin X = int (length ?k)"
      and tk: "take (length ?k) (Radius X)
               = map (nth (Radius (reduced env a ranks R i))) ?k"
      by (simp_all add: compacted_from_def compacts_def reduced_fields)
    from tk have "length (take (length ?k) (Radius X)) = length ?k" by simp
    then have "length ?k \<le> length (Radius X)" by simp
    then have "NBin X \<le> int (length (Radius X))" by (simp add: nX)
    moreover have "2 \<le> NBin X" using two True by (simp add: nX)
    ultimately show ?thesis by (simp add: update_MaxRadius_Inr)
  qed
  have "\<exists>res. map_err (\<lambda>R. map_err (update_MaxRadius a) (?X R)) ranks = Inr res"
  proof (rule map_err_ok)
    fix R
    show "\<exists>y. map_err (update_MaxRadius a) (?X R) = Inr y"
      by (rule map_err_ok) (rule el)
  qed
  then show ?thesis by (simp only: flag)
qed

section \<open>A small run\<close>

text \<open>
  The build \<open>run_env\<close> with two ranks, one thread each, one level, patches of a single
  cell of width 1 in a periodic box of size 8, and a uniform fluid with all fields 2. Rank 0 holds the cells
  with left edges \<open>x = 0\<close> and \<open>x = 2\<close>, rank 1 the cell with left edge \<open>x = 7\<close>. The
  centre is the middle of the first cell, so that the three cells are at the distances
  0, 2 and (through the periodic boundary) 1.
\<close>

definition run_patch :: "real \<Rightarrow> patch_t" where
  "run_patch x =
     \<lparr>son = - 1, EdgeL = (\<lambda>d. if d = 0 then x else 0), fluid = (\<lambda>v k j i. 2),
      magnetic = (\<lambda>v k j i. 0)\<rparr>"

definition run_rank0 :: rank_t where
  "run_rank0 =
     \<lparr>amr = \<lparr>BoxSize = (\<lambda>d. 8), dh = (\<lambda>lv. 1), NPatchComma = (\<lambda>lv k. 2), FluSg = (\<lambda>lv. 0),
              patch = (\<lambda>Sg lv PID. run_patch (if PID = 0 then 0 else 2))\<rparr>,
      Prof_in = [fresh_Profile, fresh_Profile], sched = (\<lambda>lv PID. 0)\<rparr>"

definition run_rank1 :: rank_t where
  "run_rank1 =
     \<lparr>amr = \<lparr>BoxSize = (\<lambda>d. 8), dh = (\<lambda>lv. 1), NPatchComma = (\<lambda>lv k. 1), FluSg = (\<lambda>lv. 0),
              patch = (\<lambda>Sg lv PID. run_patch 7)\<rparr>,
      Prof_in = [fresh_Profile, fresh_Profile], sched = (\<lambda>lv PID. 0)\<rparr>"

text \<open>Linear bins of width 1 out to radius 4, for the density and the \<open>x\<close> momentum.\<close>

definition run_args :: args_t where
  "run_args =
     \<lparr>Center_in = (\<lambda>d. 1 / 2), r_max_input = 4, dr_min = 1, LogBin_in = False,
      LogBinRatio_in = 0, RemoveEmpty = False, TVar = [DENS, MOMX], SingleLv = - 1\<rparr>"

definition run_cell :: "nat \<Rightarrow> real \<Rightarrow> cell_t" where
  "run_cell PID x =
     \<lparr>c_lv = 0, c_PID = PID, c_k = 0, c_j = 0, c_i = 0, c_dx = x, c_dy = 0, c_dz = 0\<rparr>"

lemma run_cells0: "rank_cells run_env run_rank0 run_args = [run_cell 0 0, run_cell 1 2]"
  by (simp add: rank_cells_def thread_cells_def level_cells_def levels_def patch_cells_def
        run_env_def run_rank0_def run_args_def run_patch_def run_cell_def nearest_image_def
        Periodic_def HalfBox_def Let_def upt_conv_Cons)

lemma run_cells1: "rank_cells run_env run_rank1 run_args = [run_cell 0 (- 1)]"
  by (simp add: rank_cells_def thread_cells_def level_cells_def levels_def patch_cells_def
        run_env_def run_rank1_def run_args_def run_patch_def run_cell_def nearest_image_def
        Periodic_def HalfBox_def Let_def upt_conv_Cons)

lemma run_NBin: "geometry_NBin run_env run_args = 4"
  by (simp add: geometry_NBin_def run_args_def)

lemma run_fits: "geometry_fits run_env run_args"
  by (simp add: geometry_fits_def run_args_def INT_MIN_def INT_MAX_def)

lemma run_MaxRadius: "geometry_MaxRadius run_env run_args = 4"
  by (simp add: geometry_MaxRadius_def run_NBin) (simp add: run_args_def)

lemma run_bin_of:
  "bin_of run_env run_args (run_cell PID 0) = Some 0"
  "bin_of run_env run_args (run_cell PID 2) = Some 2"
  "bin_of run_env run_args (run_cell PID (- 1)) = Some 1"
  by (simp_all add: bin_of_def binned_def cell_bin_def cell_r2_def cell_r_def bin_index_def run_NBin
        run_MaxRadius run_cell_def SQR_def Let_def int_of_double_def trunc_def in_int_def
        INT_MIN_def INT_MAX_def)
     (simp_all add: run_args_def)

lemma bin_of_Some_cell_bin:
  "bin_of env a c = Some b \<Longrightarrow>
   cell_bin env a (rnd (SQR (geometry_MaxRadius env a))) (geometry_NBin env a) c \<noteq> Inl e"
  by (auto simp: bin_of_def binned_def split: sum.splits)

definition run_ranks :: "rank_t list" where
  "run_ranks = [run_rank0, run_rank1]"

lemma run_contrib:
  "contrib run_env (amr run_rank0) c DENS = (2, 1)" "contrib run_env (amr run_rank0) c MOMX = (2, 1)"
  "contrib run_env (amr run_rank1) c DENS = (2, 1)" "contrib run_env (amr run_rank1) c MOMX = (2, 1)"
  by (simp_all add: contrib_def cell_quant_def run_rank0_def run_rank1_def run_patch_def CUBE_def Let_def)

lemma run_total_NCell:
  "total_NCell run_env run_args run_ranks 0 = 1" "total_NCell run_env run_args run_ranks (Suc 0) = 1"
  "total_NCell run_env run_args run_ranks 2 = 1" "total_NCell run_env run_args run_ranks 3 = 0"
  by (simp_all add: total_NCell_def rank_NCell_def run_ranks_def run_cells0 run_cells1
        bin_total_def run_bin_of)

lemma run_total_Weight:
  assumes "p < 2"
  shows "total_Weight run_env run_args run_ranks p 0 = 1"
    "total_Weight run_env run_args run_ranks p (Suc 0) = 1"
    "total_Weight run_env run_args run_ranks p 2 = 1"
    "total_Weight run_env run_args run_ranks p 3 = 0"
proof -
  from assms have "p = 0 \<or> p = 1" by auto
  then have q: "TVar run_args ! p = DENS \<or> TVar run_args ! p = MOMX"
    by (auto simp: run_args_def)
  show "total_Weight run_env run_args run_ranks p 0 = 1"
    "total_Weight run_env run_args run_ranks p (Suc 0) = 1"
    "total_Weight run_env run_args run_ranks p 2 = 1"
    "total_Weight run_env run_args run_ranks p 3 = 0"
    using q by (auto simp: total_Weight_def rank_Weight_def run_ranks_def run_cells0 run_cells1
        bin_total_def run_bin_of run_contrib)
qed

lemma run_total_Data:
  assumes "p < 2"
  shows "total_Data run_env run_args run_ranks p 0 = 2"
    "total_Data run_env run_args run_ranks p (Suc 0) = 2"
    "total_Data run_env run_args run_ranks p 2 = 2"
    "total_Data run_env run_args run_ranks p 3 = 0"
proof -
  from assms have "p = 0 \<or> p = 1" by auto
  then have q: "TVar run_args ! p = DENS \<or> TVar run_args ! p = MOMX"
    by (auto simp: run_args_def)
  show "total_Data run_env run_args run_ranks p 0 = 2"
    "total_Data run_env run_args run_ranks p (Suc 0) = 2"
    "total_Data run_env run_args run_ranks p 2 = 2"
    "total_Data run_env run_args run_ranks p 3 = 0"
    using q by (auto simp: total_Data_def rank_Data_def run_ranks_def run_cells0 run_cells1
        bin_total_def run_bin_of run_contrib)
qed

lemma upt_4: "[0..<4] = [0, Suc 0, 2, 3]"
  by (simp add: upt_conv_Cons)

text \<open>What the ranks hold after the broadcast.\<close>

lemma run_reduced:
  assumes "p < 2"
  shows "NBin (reduced run_env run_args run_ranks R p) = 4"
    and "Radius (reduced run_env run_args run_ranks R p) = [1 / 2, 3 / 2, 5 / 2, 7 / 2]"
    and "NCell (reduced run_env run_args run_ranks R p) = [1, 1, 1, 0]"
    and "Weight (reduced run_env run_args run_ranks R p) = [1, 1, 1, 0]"
    and "Data (reduced run_env run_args run_ranks R p) = [2, 2, 2, 0]"
    and "MaxRadius (reduced run_env run_args run_ranks R p) = 4"
proof -
  from assms have "p = 0 \<or> p = 1" by auto
  then have q: "TVar run_args ! p = DENS \<or> TVar run_args ! p = MOMX"
    by (auto simp: run_args_def)
  show "NBin (reduced run_env run_args run_ranks R p) = 4"
    by (simp add: reduced_fields run_NBin)
  show "Radius (reduced run_env run_args run_ranks R p) = [1 / 2, 3 / 2, 5 / 2, 7 / 2]"
    by (simp add: reduced_fields run_NBin upt_4 radius_of_bin_def) (simp add: run_args_def)
  show "NCell (reduced run_env run_args run_ranks R p) = [1, 1, 1, 0]"
    by (simp add: reduced_fields run_NBin upt_4 run_total_NCell)
  show "Weight (reduced run_env run_args run_ranks R p) = [1, 1, 1, 0]"
    by (simp add: reduced_fields run_NBin upt_4 run_total_Weight [OF assms])
  show "Data (reduced run_env run_args run_ranks R p) = [2, 2, 2, 0]"
    using q
    by (auto simp: reduced_fields run_NBin upt_4 run_total_NCell run_total_Weight [OF assms]
          run_total_Data [OF assms] normalized_value_def)
  show "MaxRadius (reduced run_env run_args run_ranks R p) = 4"
    by (simp add: reduced_fields run_MaxRadius)
qed

text \<open>The call returns, with the flag set either way.\<close>

lemma run_local:
  assumes "R \<in> set run_ranks"
  shows "local_profile run_env run_args R = Inr (map (accumulated run_env run_args R) [0..<2])"
proof -
  have l: "length (Prof_in R) = 2" using assms by (auto simp: run_ranks_def run_rank0_def run_rank1_def)
  have "local_profile run_env run_args R
        = Inr (map (accumulated run_env run_args R) [0..<length (Prof_in R)])"
  proof (rule local_profile_ok)
    show "check_params run_env run_args = Inr ()"
      by (simp add: check_params_def run_env_def run_args_def)
    show "geometry_fits run_env run_args" by (rule run_fits)
    show "0 \<le> geometry_NBin run_env run_args" by (simp add: run_NBin)
    show "Prof_in R \<noteq> []" using l by auto
    show "0 < NT run_env" by (simp add: run_env_def)
    show "cell_bin run_env run_args (rnd (SQR (geometry_MaxRadius run_env run_args))) (geometry_NBin run_env run_args) c \<noteq> Inl e"
      if "c \<in> set (rank_cells run_env R run_args)" for c e
    proof -
      from that assms have "\<exists>b. bin_of run_env run_args c = Some b"
        by (auto simp: run_ranks_def run_cells0 run_cells1 run_bin_of)
      then obtain b where "bin_of run_env run_args c = Some b" ..
      then show ?thesis by (rule bin_of_Some_cell_bin)
    qed
    show "supported (TVar run_args ! p)" if "p < length (Prof_in R)" for p
    proof -
      from that l have "p = 0 \<or> p = 1" by auto
      then show ?thesis by (auto simp: run_args_def supported_def)
    qed
  qed
  then show ?thesis by (simp only: l)
qed

lemma run_ranks_len: "\<forall>R\<in>set run_ranks. length (Prof_in R) = 2"
  by (simp add: run_ranks_def run_rank0_def run_rank1_def)

lemma run_returns:
  "\<exists>res. Aux_ComputeProfile run_env (run_args\<lparr>RemoveEmpty := x\<rparr>) run_ranks = Inr res"
proof (rule Aux_ComputeProfile_ok [where NProf = 2])
  show "run_ranks \<noteq> []" by (simp add: run_ranks_def)
  show "\<forall>R\<in>set run_ranks. length (Prof_in R) = 2" by (rule run_ranks_len)
  show "0 < (2::nat)" by simp
  show "0 \<le> geometry_NBin run_env run_args" by (simp add: run_NBin)
  show "local_profile run_env run_args R = Inr (map (accumulated run_env run_args R) [0..<2])"
    if "R \<in> set run_ranks" for R
    using that by (rule run_local)
  show "2 \<le> (if x then int (length (kept (map (total_NCell run_env run_args run_ranks)
                                        [0..<nat (geometry_NBin run_env run_args)]) 0
                                    (nat (geometry_NBin run_env run_args))))
              else geometry_NBin run_env run_args)"
    by (simp add: run_NBin upt_4 run_total_NCell kept_def)
qed

text \<open>The profiles at the end of the run.\<close>

lemma run_LogBin: "LogBin_in run_args = False"
  by (simp add: run_args_def)

lemma run_final_False:
  assumes "p < 2"
  shows "NBin (final False run_env run_args run_ranks R p) = 4"
    and "Radius (final False run_env run_args run_ranks R p) = [1 / 2, 3 / 2, 5 / 2, 7 / 2]"
    and "NCell (final False run_env run_args run_ranks R p) = [1, 1, 1, 0]"
    and "Weight (final False run_env run_args run_ranks R p) = [1, 1, 1, 0]"
    and "Data (final False run_env run_args run_ranks R p) = [2, 2, 2, 0]"
    and "MaxRadius (final False run_env run_args run_ranks R p) = 9 / 2"
  by (simp_all add: final_def run_reduced [OF assms] extrapolated_def Let_def run_LogBin)

lemma run_final_True:
  assumes "p < 2"
  shows "NBin (final True run_env run_args run_ranks R p) = 3"
    and "Radius (final True run_env run_args run_ranks R p) = [1 / 2, 3 / 2, 5 / 2]"
    and "NCell (final True run_env run_args run_ranks R p) = [1, 1, 1]"
    and "Weight (final True run_env run_args run_ranks R p) = [1, 1, 1]"
    and "Data (final True run_env run_args run_ranks R p) = [2, 2, 2]"
    and "MaxRadius (final True run_env run_args run_ranks R p) = 7 / 2"
  by (simp_all add: final_def remove_empty_bins_def run_reduced [OF assms] extrapolated_def upt_4
        Let_def run_LogBin)

section \<open>Claims about the whole call\<close>

lemma run_ranks_ne: "run_ranks \<noteq> []"
  by (simp add: run_ranks_def)

lemma visible_fields:
  "NBin (visible P) = NBin P" "MaxRadius (visible P) = MaxRadius P"
  "Radius (visible P) = take (nat (NBin P)) (Radius P)"
  "Data (visible P) = take (nat (NBin P)) (Data P)"
  "Weight (visible P) = take (nat (NBin P)) (Weight P)"
  "NCell (visible P) = take (nat (NBin P)) (NCell P)"
  by (simp_all add: visible_def)

lemma RemoveEmpty_same: "a\<lparr>RemoveEmpty := RemoveEmpty a\<rparr> = a"
  by simp

theorem remove_empty_round_trip_witness:
  "\<exists>resF resT.
     Aux_ComputeProfile run_env (run_args\<lparr>RemoveEmpty := False\<rparr>) run_ranks = Inr resF
     \<and> Aux_ComputeProfile run_env (run_args\<lparr>RemoveEmpty := True\<rparr>) run_ranks = Inr resT
     \<and> remove_by_hand run_args resF = Inr (map (map visible) resT)
     \<and> NBin (resF ! 0 ! 0) = 4 \<and> NBin (resT ! 0 ! 0) = 3"
proof -
  from run_returns [of False] obtain resF
    where F: "Aux_ComputeProfile run_env (run_args\<lparr>RemoveEmpty := False\<rparr>) run_ranks = Inr resF" ..
  from run_returns [of True] obtain resT
    where T: "Aux_ComputeProfile run_env (run_args\<lparr>RemoveEmpty := True\<rparr>) run_ranks = Inr resT" ..
  from remove_empty_round_trip [OF run_ranks_ne run_ranks_len, where env = run_env and a = run_args]
  have rt: "remove_by_hand run_args resF = Inr (map (map visible) resT)"
    by (simp add: F T)
  from Aux_ComputeProfile_final(3) [OF run_ranks_ne run_ranks_len F, of 0 0]
  have "visible (resF ! 0 ! 0) = final False run_env run_args run_ranks (run_ranks ! 0) 0"
    by (simp add: run_ranks_def)
  then have "NBin (visible (resF ! 0 ! 0)) = 4" by (simp add: run_final_False)
  then have nF: "NBin (resF ! 0 ! 0) = 4" by (simp add: visible_fields)
  from Aux_ComputeProfile_final(3) [OF run_ranks_ne run_ranks_len T, of 0 0]
  have "visible (resT ! 0 ! 0) = final True run_env run_args run_ranks (run_ranks ! 0) 0"
    by (simp add: run_ranks_def)
  then have "NBin (visible (resT ! 0 ! 0)) = 3" by (simp add: run_final_True)
  then have nT: "NBin (resT ! 0 ! 0) = 3" by (simp add: visible_fields)
  from F T rt nF nT show ?thesis by blast
qed

lemma final_shared:
  "NBin (final x env a ranks R p) = NBin (final x env a ranks R' q)"
  "Radius (final x env a ranks R p) = Radius (final x env a ranks R' q)"
  "NCell (final x env a ranks R p) = NCell (final x env a ranks R' q)"
  by (simp_all add: final_def Let_def remove_empty_bins_def reduced_fields)

text \<open>
  Claim C10. When the call returns, all profiles (of every rank) have the same number
  of bins, the same radii and the same cell counts in these bins. All ranks pass the
  same number of profiles.
\<close>

theorem profiles_share_bins:
  assumes ne: "ranks \<noteq> []" and len: "\<forall>R\<in>set ranks. length (Prof_in R) = NProf"
    and ret: "Aux_ComputeProfile env a ranks = Inr res"
    and r: "r < length ranks" "r' < length ranks" and p: "p < NProf" "q < NProf"
  shows "NBin (res ! r ! p) = NBin (res ! r' ! q)
         \<and> take (nat (NBin (res ! r ! p))) (Radius (res ! r ! p))
           = take (nat (NBin (res ! r' ! q))) (Radius (res ! r' ! q))
         \<and> take (nat (NBin (res ! r ! p))) (NCell (res ! r ! p))
           = take (nat (NBin (res ! r' ! q))) (NCell (res ! r' ! q))"
proof -
  from ret have ret': "Aux_ComputeProfile env (a\<lparr>RemoveEmpty := RemoveEmpty a\<rparr>) ranks = Inr res"
    by simp
  note f = Aux_ComputeProfile_final(3) [OF ne len ret']
  have P: "visible (res ! r ! p) = final (RemoveEmpty a) env a ranks (ranks ! r) p"
    by (rule f [OF r(1) p(1)])
  have Q: "visible (res ! r' ! q) = final (RemoveEmpty a) env a ranks (ranks ! r') q"
    by (rule f [OF r(2) p(2)])
  have "NBin (visible (res ! r ! p)) = NBin (visible (res ! r' ! q))"
    "Radius (visible (res ! r ! p)) = Radius (visible (res ! r' ! q))"
    "NCell (visible (res ! r ! p)) = NCell (visible (res ! r' ! q))"
    unfolding P Q by (rule final_shared)+
  then show ?thesis by (simp add: visible_fields)
qed

theorem profiles_share_bins_witness:
  "\<exists>res. Aux_ComputeProfile run_env (run_args\<lparr>RemoveEmpty := True\<rparr>) run_ranks = Inr res
         \<and> NBin (res ! 0 ! 0) = NBin (res ! 1 ! 1)
         \<and> take (nat (NBin (res ! 0 ! 0))) (Radius (res ! 0 ! 0))
           = take (nat (NBin (res ! 1 ! 1))) (Radius (res ! 1 ! 1))
         \<and> take (nat (NBin (res ! 0 ! 0))) (NCell (res ! 0 ! 0))
           = take (nat (NBin (res ! 1 ! 1))) (NCell (res ! 1 ! 1))"
proof -
  from run_returns [of True] obtain res
    where T: "Aux_ComputeProfile run_env (run_args\<lparr>RemoveEmpty := True\<rparr>) run_ranks = Inr res" ..
  have "(0::nat) < length run_ranks" "(1::nat) < length run_ranks" "(0::nat) < 2" "(1::nat) < 2"
    by (simp_all add: run_ranks_def)
  from profiles_share_bins [OF run_ranks_ne run_ranks_len T this] T
  show ?thesis by blast
qed

text \<open>
  Claim C8 fails on the code: the loop of lines 443--450 is not part of the removal
  of the empty bins and runs in every call. In the small run with
  \<open>RemoveEmpty = false\<close> the geometry sets \<open>MaxRadius = dr_min * NBin = 4\<close>, the
  radius the cells are selected with, and the call returns with
  \<open>MaxRadius = 2 * Radius[3] - Radius[2] = 9/2\<close>.
\<close>

theorem MaxRadius_without_removal:
  "\<exists>res. Aux_ComputeProfile run_env (run_args\<lparr>RemoveEmpty := False\<rparr>) run_ranks = Inr res
         \<and> NBin (res ! 0 ! 0) = 4 \<and> MaxRadius (res ! 0 ! 0) = 9 / 2
         \<and> geometry_MaxRadius run_env (run_args\<lparr>RemoveEmpty := False\<rparr>) = 4"
proof -
  from run_returns [of False] obtain res
    where F: "Aux_ComputeProfile run_env (run_args\<lparr>RemoveEmpty := False\<rparr>) run_ranks = Inr res" ..
  from Aux_ComputeProfile_final(3) [OF run_ranks_ne run_ranks_len F, of 0 0]
  have "visible (res ! 0 ! 0) = final False run_env run_args run_ranks (run_ranks ! 0) 0"
    by (simp add: run_ranks_def)
  then have "NBin (visible (res ! 0 ! 0)) = 4" "MaxRadius (visible (res ! 0 ! 0)) = 9 / 2"
    by (simp_all add: run_final_False)
  then have "NBin (res ! 0 ! 0) = 4" "MaxRadius (res ! 0 ! 0) = 9 / 2"
    by (simp_all add: visible_fields)
  moreover have "geometry_MaxRadius run_env (run_args\<lparr>RemoveEmpty := False\<rparr>) = 4"
    using run_MaxRadius by (simp add: run_args_def)
  ultimately show ?thesis using F by blast
qed

section \<open>The parameter check\<close>

text \<open>Where a loop stops with an error, its body has.\<close>

lemma for_loop_Inl:
  "for_loop xs body s = Inl e \<Longrightarrow> \<exists>x s'. x \<in> set xs \<and> body x s' = Inl e"
proof (induction xs arbitrary: s)
  case Nil
  then show ?case by simp
next
  case (Cons x xs)
  show ?case
  proof (cases "body x s")
    case (Inl e')
    with Cons.prems have "body x s = Inl e" by simp
    then show ?thesis by auto
  next
    case (Inr s1)
    with Cons.prems have "for_loop xs body s1 = Inl e" by simp
    from Cons.IH [OF this] show ?thesis by auto
  qed
qed

lemma map_err_Inl_member: "map_err f xs = Inl e \<Longrightarrow> \<exists>x\<in>set xs. f x = Inl e"
proof (induction xs)
  case Nil
  then show ?case by simp
next
  case (Cons x xs)
  then show ?case by (auto split: sum.splits)
qed

text \<open>The errors of the steps after the parameter check.\<close>

lemma int_of_double_Inl: "int_of_double x = Inl e \<Longrightarrow> e = IntOverflow"
  by (simp add: int_of_double_def in_int_Inl)

lemma set_NBin_MaxRadius_Inl: "set_NBin_MaxRadius env a P = Inl e \<Longrightarrow> e = IntOverflow"
  by (auto simp: set_NBin_MaxRadius_def split: if_splits sum.splits
        dest: int_of_double_Inl in_int_Inl)

lemma geometry_p_Inl:
  "geometry_p env a p Prof = Inl e \<Longrightarrow> e = IntOverflow \<or> e = BadAllocation"
  by (auto simp: geometry_p_def AllocateMemory_def Let_def split: sum.splits if_splits
        dest: set_NBin_MaxRadius_Inl)

lemma geometry_Inl: "geometry env a Prof = Inl e \<Longrightarrow> e = IntOverflow \<or> e = BadAllocation"
  unfolding geometry_def by (auto dest!: for_loop_Inl geometry_p_Inl)

lemma bin_index_Inl: "bin_index env a r = Inl e \<Longrightarrow> e = IntOverflow"
  by (auto simp: bin_index_def split: if_splits sum.splits dest: int_of_double_Inl in_int_Inl)

lemma cell_bin_Inl:
  "cell_bin env a r_max2 n0 c = Inl e \<Longrightarrow> e = IntOverflow \<or> e = NegativeBin \<or> e = OutOfBounds"
  by (auto simp: cell_bin_def split: if_splits sum.splits dest: bin_index_Inl)

lemma cell_quant_Inl: "cell_quant env A dv c q = Inl e \<Longrightarrow> e = UnsupportedQuantity"
  by (cases q) (simp_all add: cell_quant_def Let_def)

lemma add_cell_p_Inl: "add_cell_p env A a c bin p st = Inl e \<Longrightarrow> e = UnsupportedQuantity"
  by (auto simp: add_cell_p_def split: sum.splits prod.splits dest: cell_quant_Inl)

lemma cell_step_Inl: "cell_step env A a NProf r_max2 n0 c st = Inl e \<Longrightarrow> e \<noteq> InvalidParameter"
  by (auto simp: cell_step_def split: sum.splits option.splits
        dest: cell_bin_Inl for_loop_Inl add_cell_p_Inl)

lemma thread_run_Inl: "thread_run env R a Prof t = Inl e \<Longrightarrow> e \<noteq> InvalidParameter"
  unfolding thread_run_def by (auto dest!: for_loop_Inl cell_step_Inl)

lemma local_profile_Inl:
  assumes "\<not> GAMER_DEBUG env" and "local_profile env a R = Inl e"
  shows "e \<noteq> InvalidParameter"
proof -
  from assms(1) have c: "check_params env a = Inr ()" by (simp add: check_params_def)
  show ?thesis
  proof (cases "geometry env a (Prof_in R)")
    case (Inl e')
    with assms(2) c have "e' = e" by (simp add: local_profile_def)
    with geometry_Inl [OF Inl] show ?thesis by auto
  next
    case (Inr Prof)
    show ?thesis
    proof (cases "Prof = [] \<or> NT env = 0")
      case True
      with assms(2) c Inr show ?thesis by (auto simp: local_profile_def)
    next
      case False
      with assms(2) c Inr have "map_err (thread_run env R a Prof) [0..<NT env] = Inl e"
        by (auto simp: local_profile_def split: sum.splits)
      from map_err_Inl_member [OF this] thread_run_Inl show ?thesis by blast
    qed
  qed
qed

lemma update_MaxRadius_Inl_error: "update_MaxRadius a P = Inl e \<Longrightarrow> e = OutOfBounds"
  by (simp add: update_MaxRadius_def Let_def split: if_splits)

lemma finish_Inl: "finish a Prof = Inl e \<Longrightarrow> e = OutOfBounds"
  unfolding finish_def by (auto dest!: map_err_Inl_member update_MaxRadius_Inl_error)

lemma Aux_ComputeProfile_release:
  assumes "\<not> GAMER_DEBUG env"
  shows "Aux_ComputeProfile env a ranks \<noteq> Inl InvalidParameter"
proof
  assume e: "Aux_ComputeProfile env a ranks = Inl InvalidParameter"
  show False
  proof (cases "map_err (local_profile env a) ranks")
    case (Inl e')
    with e have "e' = InvalidParameter" by (simp add: Aux_ComputeProfile_def)
    with map_err_Inl_member [OF Inl] local_profile_Inl [OF assms] show False by blast
  next
    case (Inr locals)
    with e have "map_err (\<lambda>Prof. finish a (bcast (normalize a (reduce_root locals)) Prof)) locals
                 = Inl InvalidParameter"
      by (simp add: Aux_ComputeProfile_def Let_def split: if_splits)
    from map_err_Inl_member [OF this] finish_Inl show False by blast
  qed
qed

text \<open>
  Claim C5, as amended. In a build with \<^verbatim>\<open>GAMER_DEBUG\<close>, a call with \<open>r_max \<le> 0\<close>,
  \<open>dr_min \<le> 0\<close> or, for logarithmic bins, \<open>ratio \<le> 1\<close> ends with the
  invalid-parameter error. The check is the first step of every rank, before the
  geometry loop that allocates the arrays: the error is \<open>InvalidParameter\<close> also where
  the number of bins would be negative and the allocation itself would fail. In a build
  without \<^verbatim>\<open>GAMER_DEBUG\<close> the three checks are compiled out and no call ends with the
  invalid-parameter error.
\<close>

theorem invalid_parameter_debug:
  "(GAMER_DEBUG env
      \<and> (r_max_input a \<le> 0 \<or> dr_min a \<le> 0 \<or> (LogBin_in a \<and> LogBinRatio_in a \<le> 1))
      \<and> ranks \<noteq> []
    \<longrightarrow> check_params env a = Inl InvalidParameter
        \<and> Aux_ComputeProfile env a ranks = Inl InvalidParameter)
   \<and> (\<not> GAMER_DEBUG env
       \<longrightarrow> check_params env a = Inr ()
           \<and> Aux_ComputeProfile env a ranks \<noteq> Inl InvalidParameter)"
proof (intro conjI impI)
  assume h: "GAMER_DEBUG env
      \<and> (r_max_input a \<le> 0 \<or> dr_min a \<le> 0 \<or> (LogBin_in a \<and> LogBinRatio_in a \<le> 1))
      \<and> ranks \<noteq> []"
  then show c: "check_params env a = Inl InvalidParameter"
    by (auto simp: check_params_def)
  then have "local_profile env a R = Inl InvalidParameter" for R
    by (simp add: local_profile_def)
  then have "map_err (local_profile env a) ranks = Inl InvalidParameter"
    using h by (cases ranks) simp_all
  then show "Aux_ComputeProfile env a ranks = Inl InvalidParameter"
    by (simp add: Aux_ComputeProfile_def)
next
  assume "\<not> GAMER_DEBUG env"
  then show "check_params env a = Inr ()" by (simp add: check_params_def)
next
  assume "\<not> GAMER_DEBUG env"
  then show "Aux_ComputeProfile env a ranks \<noteq> Inl InvalidParameter"
    by (rule Aux_ComputeProfile_release)
qed

theorem invalid_parameter_debug_witness:
  "Aux_ComputeProfile run_env (run_args\<lparr>r_max_input := - 2\<rparr>) run_ranks = Inl InvalidParameter
   \<and> geometry_NBin run_env (run_args\<lparr>r_max_input := - 2\<rparr>) = - 2
   \<and> Aux_ComputeProfile (run_env\<lparr>GAMER_DEBUG := False\<rparr>) (run_args\<lparr>r_max_input := - 2\<rparr>) run_ranks
       \<noteq> Inl InvalidParameter"
proof -
  have "GAMER_DEBUG run_env" by (simp add: run_env_def)
  moreover have "r_max_input (run_args\<lparr>r_max_input := - 2\<rparr>) \<le> 0" by simp
  ultimately have "Aux_ComputeProfile run_env (run_args\<lparr>r_max_input := - 2\<rparr>) run_ranks
                   = Inl InvalidParameter"
    using invalid_parameter_debug [of run_env "run_args\<lparr>r_max_input := - 2\<rparr>" run_ranks]
      run_ranks_ne by blast
  moreover have "geometry_NBin run_env (run_args\<lparr>r_max_input := - 2\<rparr>) = - 2"
    by (simp add: geometry_NBin_def run_args_def)
  moreover have "Aux_ComputeProfile (run_env\<lparr>GAMER_DEBUG := False\<rparr>)
                   (run_args\<lparr>r_max_input := - 2\<rparr>) run_ranks \<noteq> Inl InvalidParameter"
    using invalid_parameter_debug [of "run_env\<lparr>GAMER_DEBUG := False\<rparr>"
        "run_args\<lparr>r_max_input := - 2\<rparr>" run_ranks]
    by simp
  ultimately show ?thesis by simp
qed

text \<open>A rank without patches.\<close>

definition idle_rank :: rank_t where
  "idle_rank =
     \<lparr>amr = \<lparr>BoxSize = (\<lambda>d. 8), dh = (\<lambda>lv. 1), NPatchComma = (\<lambda>lv k. 0), FluSg = (\<lambda>lv. 0),
              patch = (\<lambda>Sg lv PID. run_patch 0)\<rparr>,
      Prof_in = [fresh_Profile], sched = (\<lambda>lv PID. 0)\<rparr>"

text \<open>
  Claim C5 as stated fails in a build without \<^verbatim>\<open>GAMER_DEBUG\<close>, where the three
  checks are compiled out: a call with \<open>r_max = - 4\<close> and \<open>dr_min = - 1\<close> allocates
  four bins and returns.
\<close>

theorem invalid_parameter_release_counterexample:
  "\<exists>res. Aux_ComputeProfile (run_env\<lparr>GAMER_DEBUG := False\<rparr>)
            (run_args\<lparr>r_max_input := - 4, dr_min := - 1\<rparr>) [idle_rank] = Inr res"
proof -
  let ?env = "run_env\<lparr>GAMER_DEBUG := False\<rparr>"
  let ?a = "run_args\<lparr>r_max_input := - 4, dr_min := - 1\<rparr>"
  have n: "geometry_NBin ?env ?a = 4"
    by (simp add: geometry_NBin_def run_args_def)
  have cells: "rank_cells ?env idle_rank ?a = []"
    by (simp add: rank_cells_def thread_cells_def level_cells_def levels_def idle_rank_def
          run_env_def run_args_def)
  have loc: "local_profile ?env ?a idle_rank
             = Inr (map (accumulated ?env ?a idle_rank) [0..<length (Prof_in idle_rank)])"
  proof (rule local_profile_ok)
    show "check_params ?env ?a = Inr ()" by (simp add: check_params_def)
    show "geometry_fits ?env ?a"
      by (simp add: geometry_fits_def run_args_def INT_MIN_def INT_MAX_def)
    show "0 \<le> geometry_NBin ?env ?a" by (simp add: n)
    show "Prof_in idle_rank \<noteq> []" by (simp add: idle_rank_def)
    show "0 < NT ?env" by (simp add: run_env_def)
    show "cell_bin ?env ?a (rnd (SQR (geometry_MaxRadius ?env ?a))) (geometry_NBin ?env ?a) c \<noteq> Inl e"
      if "c \<in> set (rank_cells ?env idle_rank ?a)" for c e
      using that by (simp add: cells)
    show "supported (TVar ?a ! p)" if "p < length (Prof_in idle_rank)" for p
      using that by (simp add: idle_rank_def run_args_def supported_def)
  qed
  have "\<exists>res. Aux_ComputeProfile ?env (?a\<lparr>RemoveEmpty := False\<rparr>) [idle_rank] = Inr res"
  proof (rule Aux_ComputeProfile_ok [where NProf = 1])
    show "[idle_rank] \<noteq> []" by simp
    show "\<forall>R\<in>set [idle_rank]. length (Prof_in R) = 1" by (simp add: idle_rank_def)
    show "0 < (1::nat)" by simp
    show "0 \<le> geometry_NBin ?env ?a" by (simp add: n)
    show "local_profile ?env ?a R = Inr (map (accumulated ?env ?a R) [0..<1])"
      if "R \<in> set [idle_rank]" for R
      using that loc by (simp add: idle_rank_def)
    show "2 \<le> (if False then int (length (kept (map (total_NCell ?env ?a [idle_rank])
                                        [0..<nat (geometry_NBin ?env ?a)]) 0 (nat (geometry_NBin ?env ?a))))
              else geometry_NBin ?env ?a)"
      by (simp add: n)
  qed
  moreover have "?a\<lparr>RemoveEmpty := False\<rparr> = ?a" by (simp add: run_args_def)
  ultimately show ?thesis by simp
qed

section \<open>The bin of a cell\<close>

lemma binned_floor:
  assumes dr: "0 < dr_min a" and l1: "LogBin_in a \<Longrightarrow> 0 < log_libm env (LogBinRatio_in a)"
    and l2: "\<And>x. LogBin_in a \<Longrightarrow> 1 \<le> x \<Longrightarrow> 0 \<le> log_libm env x"
    and fits: "cell_r2 c < r_max2 \<Longrightarrow> bin_floor env a (cell_r c) \<le> INT_MAX"
    and b: "b < nat n0"
  shows "(binned env a r_max2 n0 c = Some b)
         = (cell_r2 c < r_max2 \<and> bin_floor env a (cell_r c) = int b)"
proof (cases "cell_r2 c < r_max2")
  case False
  then show ?thesis by (simp add: binned_def cell_bin_def)
next
  case True
  note f = bin_index_floor [OF dr l1 l2 cell_r_nonneg fits [OF True]]
  note nn = bin_floor_nonneg [OF dr l1 l2 cell_r_nonneg, of c]
  show ?thesis
  proof (cases "bin_floor env a (cell_r c) \<ge> n0")
    case True
    with \<open>cell_r2 c < r_max2\<close> b show ?thesis
      by (auto simp: binned_def cell_bin_def f)
  next
    case False
    with True nn b show ?thesis
      by (auto simp: binned_def cell_bin_def f)
  qed
qed

text \<open>
  Claim C1. With a positive bin width, supported quantities and a bin index inside the
  range of \<^verbatim>\<open>int\<close> (and, for logarithmic bins, a C library whose \<^verbatim>\<open>log\<close> is
  positive at the ratio and not negative from 1 on), the body of the cell loop adds a
  cell to the accumulators if and only if its squared distance \<open>r2\<close> from the centre
  is below the squared maximum radius, and then to the bin \<open>floor(r / dr_min)\<close> for
  linear bins, or for logarithmic bins to bin 0 if \<open>r < dr_min\<close> and to bin
  \<open>floor(log(r/dr_min) / log(ratio)) + 1\<close> otherwise, where \<open>r2\<close>, \<open>r\<close> and the
  quotients are the values the code computes in \<^verbatim>\<open>double\<close>: in every profile the
  cell count of that bin grows by one, its data and weight by the contribution and the
  weight of the cell, and no other bin changes. A cell whose bin index is \<open>NBin\<close> or
  more changes no bin.
\<close>

theorem cell_step_bins:
  assumes dr: "0 < dr_min a" and l1: "LogBin_in a \<Longrightarrow> 0 < log_libm env (LogBinRatio_in a)"
    and l2: "\<And>x. LogBin_in a \<Longrightarrow> 1 \<le> x \<Longrightarrow> 0 \<le> log_libm env x"
    and fits: "cell_r2 c < r_max2 \<Longrightarrow> bin_floor env a (cell_r c) \<le> INT_MAX"
    and sup: "\<forall>p<NProf. supported (TVar a ! p)"
    and sh: "omp_shape NProf (nat n0) st"
  shows "\<exists>st'. cell_step env A a NProf r_max2 n0 c st = Inr st'
           \<and> omp_shape NProf (nat n0) st'
           \<and> (\<forall>p<NProf. \<forall>b<nat n0.
                 OMP_NCell st' ! p ! b
                 = OMP_NCell st ! p ! b
                   + (if cell_r2 c < r_max2 \<and> bin_floor env a (cell_r c) = int b then 1 else 0)
               \<and> OMP_Data st' ! p ! b
                 = OMP_Data st ! p ! b
                   + (if cell_r2 c < r_max2 \<and> bin_floor env a (cell_r c) = int b
                      then fst (contrib env A c (TVar a ! p)) else 0)
               \<and> OMP_Weight st' ! p ! b
                 = OMP_Weight st ! p ! b
                   + (if cell_r2 c < r_max2 \<and> bin_floor env a (cell_r c) = int b
                      then snd (contrib env A c (TVar a ! p)) else 0))"
proof -
  have "\<exists>st'. cell_step env A a NProf r_max2 n0 c st = Inr st'"
    using sup by (intro cell_step_ok cell_bin_valid dr l1 l2 fits) simp_all
  then obtain st' where ok: "cell_step env A a NProf r_max2 n0 c st = Inr st'" ..
  note e = cell_step_effect [OF ok sh]
  have "omp_shape NProf (nat n0) st'" using e by simp
  moreover have "\<forall>p<NProf. \<forall>b<nat n0.
                 OMP_NCell st' ! p ! b
                 = OMP_NCell st ! p ! b
                   + (if cell_r2 c < r_max2 \<and> bin_floor env a (cell_r c) = int b then 1 else 0)
               \<and> OMP_Data st' ! p ! b
                 = OMP_Data st ! p ! b
                   + (if cell_r2 c < r_max2 \<and> bin_floor env a (cell_r c) = int b
                      then fst (contrib env A c (TVar a ! p)) else 0)
               \<and> OMP_Weight st' ! p ! b
                 = OMP_Weight st ! p ! b
                   + (if cell_r2 c < r_max2 \<and> bin_floor env a (cell_r c) = int b
                      then snd (contrib env A c (TVar a ! p)) else 0)"
  proof (intro allI impI)
    fix p b assume p: "p < NProf" and b: "b < nat n0"
    from e p b binned_floor [OF dr l1 l2 fits b]
    show "OMP_NCell st' ! p ! b
                 = OMP_NCell st ! p ! b
                   + (if cell_r2 c < r_max2 \<and> bin_floor env a (cell_r c) = int b then 1 else 0)
               \<and> OMP_Data st' ! p ! b
                 = OMP_Data st ! p ! b
                   + (if cell_r2 c < r_max2 \<and> bin_floor env a (cell_r c) = int b
                      then fst (contrib env A c (TVar a ! p)) else 0)
               \<and> OMP_Weight st' ! p ! b
                 = OMP_Weight st ! p ! b
                   + (if cell_r2 c < r_max2 \<and> bin_floor env a (cell_r c) = int b
                      then snd (contrib env A c (TVar a ! p)) else 0)"
      by simp
  qed
  ultimately show ?thesis using ok by blast
qed

lemma run_cell_r2: "cell_r2 (run_cell PID 2) = 4" "cell_r (run_cell PID 2) = 2"
  by (simp_all add: cell_r2_def cell_r_def run_cell_def SQR_def)

theorem cell_step_bins_witness:
  "\<exists>st'. cell_step run_env (amr run_rank0) run_args 2 16 4 (run_cell 0 2) (omp_init 2 4) = Inr st'
         \<and> OMP_NCell st' ! 0 ! 2 = 1 \<and> OMP_NCell st' ! 0 ! 3 = 0
         \<and> OMP_Data st' ! 0 ! 2 = 2 \<and> OMP_Weight st' ! 0 ! 2 = 1"
proof -
  let ?c = "run_cell 0 2"
  have dr: "0 < dr_min run_args" by (simp add: run_args_def)
  have l1: "0 < log_libm run_env (LogBinRatio_in run_args)" if "LogBin_in run_args"
    using that by (simp add: run_args_def)
  have l2: "0 \<le> log_libm run_env x" if "LogBin_in run_args" for x
    using that by (simp add: run_args_def)
  have sup: "\<forall>p<2. supported (TVar run_args ! p)"
    by (auto simp: run_args_def supported_def less_Suc_eq numeral_2_eq_2)
  have sh: "omp_shape 2 (nat 4) (omp_init 2 4)" by (rule omp_init_shape)
  note r2 = run_cell_r2 [of 0]
  have bf: "bin_floor run_env run_args 2 = 2"
    by (simp add: bin_floor_def run_args_def)
  have fits: "bin_floor run_env run_args (cell_r ?c) \<le> INT_MAX"
    by (simp add: r2 bf INT_MAX_def)
  have t: "TVar run_args ! 0 = DENS" by (simp add: run_args_def)
  from cell_step_bins [of run_args run_env ?c 16 2 4 "omp_init 2 4" "amr run_rank0",
      OF dr l1 l2 fits sup sh]
  obtain st' where ok: "cell_step run_env (amr run_rank0) run_args 2 16 4 ?c (omp_init 2 4) = Inr st'"
    and eff: "\<forall>p<2. \<forall>b<nat 4.
                 OMP_NCell st' ! p ! b
                 = OMP_NCell (omp_init 2 4) ! p ! b
                   + (if cell_r2 ?c < 16 \<and> bin_floor run_env run_args (cell_r ?c) = int b then 1 else 0)
               \<and> OMP_Data st' ! p ! b
                 = OMP_Data (omp_init 2 4) ! p ! b
                   + (if cell_r2 ?c < 16 \<and> bin_floor run_env run_args (cell_r ?c) = int b
                      then fst (contrib run_env (amr run_rank0) ?c (TVar run_args ! p)) else 0)
               \<and> OMP_Weight st' ! p ! b
                 = OMP_Weight (omp_init 2 4) ! p ! b
                   + (if cell_r2 ?c < 16 \<and> bin_floor run_env run_args (cell_r ?c) = int b
                      then snd (contrib run_env (amr run_rank0) ?c (TVar run_args ! p)) else 0)"
    by blast
  have i: "omp_init 2 4 = \<lparr>OMP_Data = [[0, 0, 0, 0], [0, 0, 0, 0]],
             OMP_Weight = [[0, 0, 0, 0], [0, 0, 0, 0]], OMP_NCell = [[0, 0, 0, 0], [0, 0, 0, 0]]\<rparr>"
    by (simp add: omp_init_def numeral_2_eq_2 numeral_eq_Suc)
  from eff have e: "\<forall>b<nat 4.
                 OMP_NCell st' ! 0 ! b
                 = OMP_NCell (omp_init 2 4) ! 0 ! b
                   + (if cell_r2 ?c < 16 \<and> bin_floor run_env run_args (cell_r ?c) = int b then 1 else 0)
               \<and> OMP_Data st' ! 0 ! b
                 = OMP_Data (omp_init 2 4) ! 0 ! b
                   + (if cell_r2 ?c < 16 \<and> bin_floor run_env run_args (cell_r ?c) = int b
                      then fst (contrib run_env (amr run_rank0) ?c (TVar run_args ! 0)) else 0)
               \<and> OMP_Weight st' ! 0 ! b
                 = OMP_Weight (omp_init 2 4) ! 0 ! b
                   + (if cell_r2 ?c < 16 \<and> bin_floor run_env run_args (cell_r ?c) = int b
                      then snd (contrib run_env (amr run_rank0) ?c (TVar run_args ! 0)) else 0)"
    by simp
  from e have "OMP_NCell st' ! 0 ! 2 = OMP_NCell (omp_init 2 4) ! 0 ! 2 + 1"
    "OMP_Data st' ! 0 ! 2 = OMP_Data (omp_init 2 4) ! 0 ! 2 + 2"
    "OMP_Weight st' ! 0 ! 2 = OMP_Weight (omp_init 2 4) ! 0 ! 2 + 1"
    by (simp_all add: bf r2 t run_contrib)
  moreover from e have "OMP_NCell st' ! 0 ! 3 = OMP_NCell (omp_init 2 4) ! 0 ! 3 + 0"
    by (simp add: bf r2)
  ultimately have "OMP_NCell st' ! 0 ! 2 = 1" "OMP_NCell st' ! 0 ! 3 = 0"
    "OMP_Data st' ! 0 ! 2 = 2" "OMP_Weight st' ! 0 ! 2 = 1"
    by (simp_all add: i)
  with ok show ?thesis by blast
qed

section \<open>A uniform density\<close>

lemma bin_total_mult:
  "bin_total binof (\<lambda>c. k * w c) cs b = k * bin_total binof w cs b" for k :: real
  by (simp add: bin_total_def sum_list_const_mult)

lemma bin_total_cong:
  "(\<And>c. c \<in> set cs \<Longrightarrow> f c = g c) \<Longrightarrow> bin_total binof f cs b = bin_total binof g cs b"
  unfolding bin_total_def by (rule arg_cong [where f = sum_list]) (rule map_cong, simp_all)

lemma bin_total_count:
  "bin_total binof (\<lambda>c. 1 :: int) cs b = int (length (filter (\<lambda>c. binof c = Some b) cs))"
  by (simp add: bin_total_def sum_list_triv)

lemma bin_total_nonneg:
  "(\<And>c. c \<in> set cs \<Longrightarrow> 0 \<le> w c) \<Longrightarrow> 0 \<le> bin_total binof w cs b" for w :: "cell_t \<Rightarrow> real"
  unfolding bin_total_def by (rule sum_list_nonneg) auto

lemma bin_total_pos:
  fixes w :: "cell_t \<Rightarrow> real"
  assumes "\<And>c. c \<in> set cs \<Longrightarrow> 0 < w c" and "bin_total binof (\<lambda>c. 1 :: int) cs b \<noteq> 0"
  shows "0 < bin_total binof w cs b"
  using assms
proof (induction cs)
  case Nil
  then show ?case by simp
next
  case (Cons c cs)
  have nn: "0 \<le> bin_total binof w cs b"
    using Cons.prems(1) by (intro bin_total_nonneg) (simp add: less_imp_le)
  show ?case
  proof (cases "binof c = Some b")
    case True
    with nn Cons.prems(1) [of c] show ?thesis by (simp add: bin_total_Cons)
  next
    case False
    with Cons show ?thesis by (simp add: bin_total_Cons)
  qed
qed

lemma sum_list_pos_member:
  fixes f :: "'a \<Rightarrow> real"
  assumes "\<And>x. x \<in> set xs \<Longrightarrow> 0 \<le> f x" and "x \<in> set xs" and "0 < f x"
  shows "0 < sum_list (map f xs)"
  using assms
proof (induction xs)
  case Nil
  then show ?case by simp
next
  case (Cons y ys)
  have nn: "0 \<le> sum_list (map f ys)"
    using Cons.prems(1) by (intro sum_list_nonneg) auto
  show ?case
  proof (cases "x = y")
    case True
    with nn Cons.prems(3) show ?thesis by simp
  next
    case False
    with Cons.prems have "0 < sum_list (map f ys)" by (intro Cons.IH) simp_all
    moreover have "0 \<le> f y" using Cons.prems(1) by simp
    ultimately show ?thesis by simp
  qed
qed

lemma sum_list_int_nonzero:
  fixes f :: "'a \<Rightarrow> int"
  shows "sum_list (map f xs) \<noteq> 0 \<Longrightarrow> \<exists>x\<in>set xs. f x \<noteq> 0"
  by (induction xs) auto

lemma contrib_DENS:
  "contrib env A c DENS
   = (fluid (patch A (FluSg A (c_lv c)) (c_lv c) (c_PID c)) DENS (c_k c) (c_j c) (c_i c)
        * CUBE (dh A (c_lv c)), CUBE (dh A (c_lv c)))"
  by (simp add: contrib_def cell_quant_def Let_def)

lemma CUBE_pos: "0 < x \<Longrightarrow> 0 < CUBE x"
  by (simp add: CUBE_def)

text \<open>With a uniform density the sums of a density profile are proportional.\<close>

lemma uniform_totals:
  assumes q: "TVar a ! p = DENS"
    and uni: "\<forall>R\<in>set ranks. \<forall>lv PID k j i. fluid (patch (amr R) (FluSg (amr R) lv) lv PID) DENS k j i = rho0"
    and dhp: "\<forall>R\<in>set ranks. \<forall>lv. 0 < dh (amr R) lv"
  shows "total_Data env a ranks p b = rho0 * total_Weight env a ranks p b"
    and "total_NCell env a ranks b \<noteq> 0 \<Longrightarrow> 0 < total_Weight env a ranks p b"
    and "0 \<le> total_NCell env a ranks b"
proof -
  have D: "rank_Data env a R p b = rho0 * rank_Weight env a R p b" if "R \<in> set ranks" for R
    using that uni
    by (simp add: rank_Data_def rank_Weight_def q contrib_DENS bin_total_mult [symmetric])
  show "total_Data env a ranks p b = rho0 * total_Weight env a ranks p b"
    unfolding total_Data_def total_Weight_def sum_list_const_mult [symmetric]
    by (rule arg_cong [where f = sum_list]) (simp add: D)
  have Wnn: "0 \<le> rank_Weight env a R p b" if "R \<in> set ranks" for R
    unfolding rank_Weight_def q contrib_DENS snd_conv
    using that dhp by (intro bin_total_nonneg) (simp add: CUBE_pos less_imp_le)
  show "0 < total_Weight env a ranks p b" if "total_NCell env a ranks b \<noteq> 0"
  proof -
    from that obtain R where R: "R \<in> set ranks" and nz: "rank_NCell env a R b \<noteq> 0"
      unfolding total_NCell_def by (auto dest: sum_list_int_nonzero)
    have "0 < rank_Weight env a R p b"
      unfolding rank_Weight_def q contrib_DENS snd_conv
      using R dhp nz by (intro bin_total_pos) (simp_all add: CUBE_pos rank_NCell_def)
    with R Wnn show ?thesis
      unfolding total_Weight_def by (intro sum_list_pos_member [where x = R]) simp_all
  qed
  show "0 \<le> total_NCell env a ranks b"
    unfolding total_NCell_def rank_NCell_def bin_total_count
    by (rule sum_list_nonneg) auto
qed

lemma uniform_reduced:
  assumes q: "TVar a ! p = DENS"
    and uni: "\<forall>R\<in>set ranks. \<forall>lv PID k j i. fluid (patch (amr R) (FluSg (amr R) lv) lv PID) DENS k j i = rho0"
    and dhp: "\<forall>R\<in>set ranks. \<forall>lv. 0 < dh (amr R) lv"
    and b: "b < nat (geometry_NBin env a)" and nz: "NCell (reduced env a ranks R p) ! b \<noteq> 0"
  shows "Data (reduced env a ranks R p) ! b = rho0"
proof -
  note u = uniform_totals [OF q uni dhp, of env b]
  from nz b have nz': "total_NCell env a ranks b \<noteq> 0" by (simp add: reduced_fields)
  with u(3) have pos: "0 < total_NCell env a ranks b" by simp
  from u(2) [OF nz'] have W: "0 < total_Weight env a ranks p b" .
  have "Data (reduced env a ranks R p) ! b
        = total_Data env a ranks p b / total_Weight env a ranks p b"
    using b pos by (simp add: reduced_fields normalized_value_def q)
  also have "\<dots> = rho0" using W by (simp add: u(1))
  finally show ?thesis .
qed

lemma uniform_final:
  assumes q: "TVar a ! p = DENS"
    and uni: "\<forall>R\<in>set ranks. \<forall>lv PID k j i. fluid (patch (amr R) (FluSg (amr R) lv) lv PID) DENS k j i = rho0"
    and dhp: "\<forall>R\<in>set ranks. \<forall>lv. 0 < dh (amr R) lv"
    and b: "b < nat (NBin (final x env a ranks R p))"
    and nz: "NCell (final x env a ranks R p) ! b \<noteq> 0"
  shows "Data (final x env a ranks R p) ! b = rho0"
proof (cases x)
  case False
  with b nz show ?thesis
    using uniform_reduced [OF q uni dhp, of b env R]
    by (simp add: final_def Let_def reduced_fields)
next
  case True
  let ?Q = "reduced env a ranks R p"
  let ?keep = "filter (\<lambda>b. NCell ?Q ! b \<noteq> 0) [0..<nat (NBin ?Q)]"
  from b True have bk: "b < length ?keep"
    by (simp add: final_def Let_def remove_empty_bins_def)
  then have "?keep ! b \<in> set ?keep" by (rule nth_mem)
  then have k: "?keep ! b < nat (geometry_NBin env a)" "NCell ?Q ! (?keep ! b) \<noteq> 0"
    by (simp_all add: reduced_fields(1))
  have "Data (final x env a ranks R p) ! b = Data ?Q ! (?keep ! b)"
    using True bk by (simp add: final_def Let_def remove_empty_bins_def)
  also have "\<dots> = rho0" by (rule uniform_reduced [OF q uni dhp k])
  finally show ?thesis .
qed

text \<open>
  Claim C7. If the density has the same value in every cell (and the cell widths are
  positive), then, when the call returns, a density profile holds this value in every
  bin with a nonzero cell count, for linear and logarithmic bins, any bin width and
  centre, with or without the removal of empty bins (in exact arithmetic). All ranks
  pass the same number of profiles.
\<close>

theorem uniform_density:
  assumes ne: "ranks \<noteq> []" and len: "\<forall>R\<in>set ranks. length (Prof_in R) = NProf"
    and ret: "Aux_ComputeProfile env a ranks = Inr res"
    and r: "r < length ranks" and p: "p < NProf" and q: "TVar a ! p = DENS"
    and uni: "\<forall>R\<in>set ranks. \<forall>lv PID k j i. fluid (patch (amr R) (FluSg (amr R) lv) lv PID) DENS k j i = rho0"
    and dhp: "\<forall>R\<in>set ranks. \<forall>lv. 0 < dh (amr R) lv"
    and b: "b < nat (NBin (res ! r ! p))" and nz: "NCell (res ! r ! p) ! b \<noteq> 0"
  shows "Data (res ! r ! p) ! b = rho0"
proof -
  from ret have ret': "Aux_ComputeProfile env (a\<lparr>RemoveEmpty := RemoveEmpty a\<rparr>) ranks = Inr res"
    by simp
  let ?F = "final (RemoveEmpty a) env a ranks (ranks ! r) p"
  have v: "visible (res ! r ! p) = ?F"
    by (rule Aux_ComputeProfile_final(3) [OF ne len ret' r p])
  have "NBin ?F = NBin (res ! r ! p)"
    "NCell ?F ! b = NCell (res ! r ! p) ! b" "Data ?F ! b = Data (res ! r ! p) ! b"
    unfolding v [symmetric] using b by (simp_all add: visible_fields)
  with uniform_final [OF q uni dhp, of b "RemoveEmpty a" env "ranks ! r"] b nz
  show ?thesis by simp
qed

theorem uniform_density_witness:
  "\<exists>res. Aux_ComputeProfile run_env (run_args\<lparr>RemoveEmpty := True\<rparr>) run_ranks = Inr res
         \<and> NBin (res ! 1 ! 0) = 3 \<and> NCell (res ! 1 ! 0) ! 2 = 1 \<and> Data (res ! 1 ! 0) ! 2 = 2"
proof -
  let ?a = "run_args\<lparr>RemoveEmpty := True\<rparr>"
  from run_returns [of True] obtain res
    where T: "Aux_ComputeProfile run_env ?a run_ranks = Inr res" ..
  from Aux_ComputeProfile_final(3) [OF run_ranks_ne run_ranks_len T, of 1 0]
  have "visible (res ! 1 ! 0) = final True run_env run_args run_ranks (run_ranks ! 1) 0"
    by (simp add: run_ranks_def)
  then have "NBin (visible (res ! 1 ! 0)) = 3" "NCell (visible (res ! 1 ! 0)) = [1, 1, 1]"
    by (simp_all add: run_final_True)
  then have n: "NBin (res ! 1 ! 0) = 3" and c: "take 3 (NCell (res ! 1 ! 0)) = [1, 1, 1]"
    by (simp_all add: visible_fields)
  have "take 3 (NCell (res ! 1 ! 0)) ! 2 = NCell (res ! 1 ! 0) ! 2" by simp
  with c have c2: "NCell (res ! 1 ! 0) ! 2 = 1" by simp
  have uni: "\<forall>R\<in>set run_ranks. \<forall>lv PID k j i.
               fluid (patch (amr R) (FluSg (amr R) lv) lv PID) DENS k j i = 2"
    by (simp add: run_ranks_def run_rank0_def run_rank1_def run_patch_def)
  have dhp: "\<forall>R\<in>set run_ranks. \<forall>lv. 0 < dh (amr R) lv"
    by (simp add: run_ranks_def run_rank0_def run_rank1_def)
  have "Data (res ! 1 ! 0) ! 2 = 2"
  proof (rule uniform_density [OF run_ranks_ne run_ranks_len T _ _ _ uni dhp])
    show "1 < length run_ranks" by (simp add: run_ranks_def)
    show "(0::nat) < 2" by simp
    show "TVar ?a ! 0 = DENS" by (simp add: run_args_def)
    show "2 < nat (NBin (res ! 1 ! 0))" using n by simp
    show "NCell (res ! 1 ! 0) ! 2 \<noteq> 0" using c2 by simp
  qed
  with T n c2 show ?thesis by blast
qed

section \<open>The cells that are counted\<close>

text \<open>
  The cells of the leaf patches (\<^verbatim>\<open>son == -1\<close>) of a rank on the levels the call
  looks at, whatever thread runs them (lines 173--202).
\<close>

definition leaf_cells :: "env_t \<Rightarrow> rank_t \<Rightarrow> args_t \<Rightarrow> cell_t list" where
  "leaf_cells env R a =
     concat (map (\<lambda>lv. concat (map (\<lambda>PID.
        if son (patch (amr R) 0 lv PID) \<noteq> - 1 then []
        else patch_cells env (amr R) a lv PID) [0..<NPatchComma (amr R) lv 1])) (levels env a))"

lemma count_concat:
  "length (filter Q (concat xss)) = sum_list (map (\<lambda>xs. length (filter Q xs)) xss)"
  by (induction xss) simp_all

lemma sum_list_swap:
  fixes f :: "'a \<Rightarrow> 'b \<Rightarrow> 'c::comm_monoid_add"
  shows "sum_list (map (\<lambda>x. sum_list (map (f x) ys)) xs)
         = sum_list (map (\<lambda>y. sum_list (map (\<lambda>x. f x y) xs)) ys)"
  by (induction xs) (simp_all add: sum_list_addf)

lemma sum_list_delta_0:
  fixes w :: "'a::comm_monoid_add"
  shows "n \<le> k \<Longrightarrow> sum_list (map (\<lambda>t. if k = t then w else 0) [0..<n]) = 0"
  by (induction n) simp_all

lemma sum_list_delta:
  fixes w :: "'a::comm_monoid_add"
  shows "k < n \<Longrightarrow> sum_list (map (\<lambda>t. if k = t then w else 0) [0..<n]) = w"
proof (induction n)
  case 0
  then show ?case by simp
next
  case (Suc n)
  show ?case
  proof (cases "k = n")
    case True
    then show ?thesis using sum_list_delta_0 [of n k w] by simp
  next
    case False
    with Suc show ?thesis by simp
  qed
qed

text \<open>Every leaf patch is run by one of the threads, so the threads together visit the
  leaf cells.\<close>

lemma count_rank_cells:
  assumes sch: "\<forall>lv PID. sched R lv PID < NT env"
  shows "length (filter Q (rank_cells env R a)) = length (filter Q (leaf_cells env R a))"
proof -
  let ?w = "\<lambda>lv PID. length (filter Q (if son (patch (amr R) 0 lv PID) \<noteq> - 1 then []
                                        else patch_cells env (amr R) a lv PID))"
  let ?NP = "\<lambda>lv. [0..<NPatchComma (amr R) lv 1]"
  have "length (filter Q (rank_cells env R a))
        = sum_list (map (\<lambda>t. sum_list (map (\<lambda>lv. sum_list (map (\<lambda>PID.
              if sched R lv PID = t then ?w lv PID else 0) (?NP lv))) (levels env a))) [0..<NT env])"
    unfolding rank_cells_def thread_cells_def level_cells_def count_concat map_map comp_def
    by (intro arg_cong [where f = sum_list] map_cong refl) auto
  also have "\<dots> = sum_list (map (\<lambda>lv. sum_list (map (\<lambda>t. sum_list (map (\<lambda>PID.
              if sched R lv PID = t then ?w lv PID else 0) (?NP lv))) [0..<NT env])) (levels env a))"
    by (rule sum_list_swap)
  also have "\<dots> = sum_list (map (\<lambda>lv. sum_list (map (\<lambda>PID. sum_list (map (\<lambda>t.
              if sched R lv PID = t then ?w lv PID else 0) [0..<NT env])) (?NP lv))) (levels env a))"
    by (simp only: sum_list_swap [where ys = "?NP lv" for lv])
  also have "\<dots> = sum_list (map (\<lambda>lv. sum_list (map (\<lambda>PID. ?w lv PID) (?NP lv))) (levels env a))"
    using sch by (simp only: sum_list_delta)
  also have "\<dots> = length (filter Q (leaf_cells env R a))"
    unfolding leaf_cells_def count_concat map_map comp_def ..
  finally show ?thesis .
qed

text \<open>The offsets of the cells of a patch (lines 183--202).\<close>

lemma patch_cells_offsets:
  assumes "c \<in> set (patch_cells env A a lv PID)"
  shows "c_lv c = lv" and "c_PID c = PID"
    and "c_dx c = nearest_image env A 0
                    (rnd (rnd (rnd (EdgeL (patch A 0 lv PID) 0 + rnd (0.5 * dh A lv)) - Center_in a 0)
                          + rnd (real (c_i c) * dh A lv)))"
    and "c_dy c = nearest_image env A 1
                    (rnd (rnd (rnd (EdgeL (patch A 0 lv PID) 1 + rnd (0.5 * dh A lv)) - Center_in a 1)
                          + rnd (real (c_j c) * dh A lv)))"
    and "c_dz c = nearest_image env A 2
                    (rnd (rnd (rnd (EdgeL (patch A 0 lv PID) 2 + rnd (0.5 * dh A lv)) - Center_in a 2)
                          + rnd (real (c_k c) * dh A lv)))"
  using assms by (auto simp: patch_cells_def Let_def)

lemma leaf_cells_patch:
  assumes "c \<in> set (leaf_cells env R a)"
  shows "c \<in> set (patch_cells env (amr R) a (c_lv c) (c_PID c))"
proof -
  from assms obtain lv PID where c: "c \<in> set (patch_cells env (amr R) a lv PID)"
    by (auto simp: leaf_cells_def split: if_splits)
  from patch_cells_offsets(1,2) [OF c] c show ?thesis by simp
qed

text \<open>
  Lines 206--212: a cell is counted when its squared distance is below the squared
  maximum radius and its bin index is one of the bins; line 212 skips a cell whose index
  reaches the number of bins through round-off.
\<close>

definition counted :: "env_t \<Rightarrow> args_t \<Rightarrow> cell_t \<Rightarrow> bool" where
  "counted env a c =
     (cell_r2 c < rnd (SQR (geometry_MaxRadius env a))
      \<and> (case bin_index env a (cell_r c) of
            Inl e \<Rightarrow> False
          | Inr bin \<Rightarrow> 0 \<le> bin \<and> bin < geometry_NBin env a))"

lemma bin_of_counted: "(bin_of env a c \<noteq> None) = counted env a c"
  by (auto simp: bin_of_def binned_def cell_bin_def counted_def split: sum.splits)

lemma bin_of_range: "bin_of env a c = Some b \<Longrightarrow> b < nat (geometry_NBin env a)"
proof -
  assume b: "bin_of env a c = Some b"
  then have "cell_bin env a (rnd (SQR (geometry_MaxRadius env a))) (geometry_NBin env a) c = Inr (Some b)"
    by (simp add: bin_of_def binned_def split: sum.splits)
  from cell_bin_range [OF this] show ?thesis by simp
qed

text \<open>Every counted cell is counted in one bin.\<close>

lemma bin_total_sum_count:
  assumes "\<And>c b. binof c = Some b \<Longrightarrow> b < n"
  shows "sum_list (map (bin_total binof (\<lambda>c. 1::int) cs) [0..<n])
         = int (length (filter (\<lambda>c. binof c \<noteq> None) cs))"
proof (induction cs)
  case Nil
  show ?case by simp
next
  case (Cons c cs)
  have one: "sum_list (map (\<lambda>b. if binof c = Some b then (1::int) else 0) [0..<n])
             = (if binof c \<noteq> None then 1 else 0)"
  proof (cases "binof c")
    case None
    then show ?thesis by simp
  next
    case (Some k)
    with assms have "k < n" by simp
    from sum_list_delta [OF this, of "1::int"] Some show ?thesis by simp
  qed
  have "sum_list (map (bin_total binof (\<lambda>c. 1::int) (c # cs)) [0..<n])
        = sum_list (map (\<lambda>b. if binof c = Some b then (1::int) else 0) [0..<n])
          + sum_list (map (bin_total binof (\<lambda>c. 1::int) cs) [0..<n])"
  proof -
    have "bin_total binof (\<lambda>c. 1::int) (c # cs)
          = (\<lambda>b. (if binof c = Some b then 1 else 0) + bin_total binof (\<lambda>c. 1) cs b)"
      by (rule ext) (rule bin_total_Cons)
    then show ?thesis by (simp only: sum_list_addf)
  qed
  with one Cons show ?case by simp
qed

lemma total_NCell_sum:
  assumes sch: "\<forall>R\<in>set ranks. \<forall>lv PID. sched R lv PID < NT env"
  shows "sum_list (map (total_NCell env a ranks) [0..<nat (geometry_NBin env a)])
         = int (sum_list (map (\<lambda>R. length (filter (counted env a) (leaf_cells env R a))) ranks))"
proof -
  let ?bs = "[0..<nat (geometry_NBin env a)]"
  have "sum_list (map (total_NCell env a ranks) ?bs)
        = sum_list (map (\<lambda>R. sum_list (map (rank_NCell env a R) ?bs)) ranks)"
    unfolding total_NCell_def by (rule sum_list_swap [symmetric])
  also have "\<dots> = sum_list (map (\<lambda>R. int (length (filter (counted env a) (leaf_cells env R a)))) ranks)"
  proof (intro arg_cong [where f = sum_list] map_cong refl)
    fix R assume R: "R \<in> set ranks"
    have "sum_list (map (rank_NCell env a R) ?bs)
          = sum_list (map (bin_total (bin_of env a) (\<lambda>c. 1::int) (rank_cells env R a)) ?bs)"
      by (simp add: rank_NCell_def [abs_def])
    also have "\<dots> = int (length (filter (\<lambda>c. bin_of env a c \<noteq> None) (rank_cells env R a)))"
      by (rule bin_total_sum_count) (rule bin_of_range)
    also have "\<dots> = int (length (filter (counted env a) (rank_cells env R a)))"
      by (simp only: bin_of_counted)
    also have "\<dots> = int (length (filter (counted env a) (leaf_cells env R a)))"
      using sch R by (simp add: count_rank_cells)
    finally show "sum_list (map (rank_NCell env a R) ?bs)
                  = int (length (filter (counted env a) (leaf_cells env R a)))" .
  qed
  also have "\<dots> = int (sum_list (map (\<lambda>R. length (filter (counted env a) (leaf_cells env R a))) ranks))"
    by (induction ranks) simp_all
  finally show ?thesis .
qed

text \<open>Dropping the bins with a zero count keeps the sum of the counts.\<close>

lemma sum_list_nonzero:
  fixes f :: "nat \<Rightarrow> int"
  shows "sum_list (map f (filter (\<lambda>b. f b \<noteq> 0) bs)) = sum_list (map f bs)"
  by (induction bs) simp_all

lemma final_NCell_sum:
  "sum_list (NCell (final x env a ranks R p))
   = sum_list (map (total_NCell env a ranks) [0..<nat (geometry_NBin env a)])"
proof (cases x)
  case False
  then show ?thesis by (simp add: final_def Let_def reduced_fields)
next
  case True
  let ?n = "nat (geometry_NBin env a)"
  let ?N = "total_NCell env a ranks"
  have "filter (\<lambda>b. map ?N [0..<?n] ! b \<noteq> 0) [0..<?n] = filter (\<lambda>b. ?N b \<noteq> 0) [0..<?n]"
    by (rule filter_cong) simp_all
  moreover have "map (nth (map ?N [0..<?n])) (filter (\<lambda>b. ?N b \<noteq> 0) [0..<?n])
                 = map ?N (filter (\<lambda>b. ?N b \<noteq> 0) [0..<?n])"
    by (rule map_cong) simp_all
  ultimately have "NCell (final x env a ranks R p) = map ?N (filter (\<lambda>b. ?N b \<noteq> 0) [0..<?n])"
    using True by (simp add: final_def Let_def remove_empty_bins_def reduced_fields)
  then show ?thesis by (simp only: sum_list_nonzero)
qed

text \<open>
  Claim C9, as amended. When the call returns, the cell counts of the bins of every
  profile of every rank add up to the number of cells of the leaf patches of all ranks,
  on the levels the call looks at, whose squared distance from the centre is strictly
  below the squared maximum radius of the bin geometry and whose bin index is one of the
  bins (line 212 skips a cell whose index reaches the number of bins through
  round-off). The offset of a leaf cell is, per axis, the offset of the cell centre from
  the profile centre, moved by the full domain length when the axis is periodic and the
  offset is beyond half the domain length. Every patch is run by one of the threads and
  all ranks pass the same number of profiles.
\<close>

theorem cell_count_total:
  assumes ne: "ranks \<noteq> []" and len: "\<forall>R\<in>set ranks. length (Prof_in R) = NProf"
    and sch: "\<forall>R\<in>set ranks. \<forall>lv PID. sched R lv PID < NT env"
    and ret: "Aux_ComputeProfile env a ranks = Inr res"
    and r: "r < length ranks" and p: "p < NProf"
  shows "sum_list (take (nat (NBin (res ! r ! p))) (NCell (res ! r ! p)))
         = int (sum_list (map (\<lambda>R. length (filter (counted env a) (leaf_cells env R a))) ranks))
       \<and> (\<forall>R\<in>set ranks. \<forall>c\<in>set (leaf_cells env R a).
             c_dx c = nearest_image env (amr R) 0
                        (rnd (rnd (rnd (EdgeL (patch (amr R) 0 (c_lv c) (c_PID c)) 0
                                        + rnd (0.5 * dh (amr R) (c_lv c))) - Center_in a 0)
                              + rnd (real (c_i c) * dh (amr R) (c_lv c))))
           \<and> c_dy c = nearest_image env (amr R) 1
                        (rnd (rnd (rnd (EdgeL (patch (amr R) 0 (c_lv c) (c_PID c)) 1
                                        + rnd (0.5 * dh (amr R) (c_lv c))) - Center_in a 1)
                              + rnd (real (c_j c) * dh (amr R) (c_lv c))))
           \<and> c_dz c = nearest_image env (amr R) 2
                        (rnd (rnd (rnd (EdgeL (patch (amr R) 0 (c_lv c) (c_PID c)) 2
                                        + rnd (0.5 * dh (amr R) (c_lv c))) - Center_in a 2)
                              + rnd (real (c_k c) * dh (amr R) (c_lv c)))))"
proof -
  from ret have ret': "Aux_ComputeProfile env (a\<lparr>RemoveEmpty := RemoveEmpty a\<rparr>) ranks = Inr res"
    by simp
  let ?F = "final (RemoveEmpty a) env a ranks (ranks ! r) p"
  have v: "visible (res ! r ! p) = ?F"
    by (rule Aux_ComputeProfile_final(3) [OF ne len ret' r p])
  have "sum_list (take (nat (NBin (res ! r ! p))) (NCell (res ! r ! p))) = sum_list (NCell ?F)"
    unfolding v [symmetric] by (simp add: visible_fields)
  also have "\<dots> = sum_list (map (total_NCell env a ranks) [0..<nat (geometry_NBin env a)])"
    by (rule final_NCell_sum)
  also have "\<dots> = int (sum_list (map (\<lambda>R. length (filter (counted env a) (leaf_cells env R a))) ranks))"
    by (rule total_NCell_sum [OF sch])
  finally have sum: "sum_list (take (nat (NBin (res ! r ! p))) (NCell (res ! r ! p)))
         = int (sum_list (map (\<lambda>R. length (filter (counted env a) (leaf_cells env R a))) ranks))" .
  have off: "c_dx c = nearest_image env (amr R) 0
                        (rnd (rnd (rnd (EdgeL (patch (amr R) 0 (c_lv c) (c_PID c)) 0
                                        + rnd (0.5 * dh (amr R) (c_lv c))) - Center_in a 0)
                              + rnd (real (c_i c) * dh (amr R) (c_lv c))))
           \<and> c_dy c = nearest_image env (amr R) 1
                        (rnd (rnd (rnd (EdgeL (patch (amr R) 0 (c_lv c) (c_PID c)) 1
                                        + rnd (0.5 * dh (amr R) (c_lv c))) - Center_in a 1)
                              + rnd (real (c_j c) * dh (amr R) (c_lv c))))
           \<and> c_dz c = nearest_image env (amr R) 2
                        (rnd (rnd (rnd (EdgeL (patch (amr R) 0 (c_lv c) (c_PID c)) 2
                                        + rnd (0.5 * dh (amr R) (c_lv c))) - Center_in a 2)
                              + rnd (real (c_k c) * dh (amr R) (c_lv c))))"
    if "c \<in> set (leaf_cells env R a)" for R c
    using patch_cells_offsets(3-5) [OF leaf_cells_patch [OF that]] by blast
  from sum off show ?thesis by blast
qed

lemma run_leaf_cells:
  "leaf_cells run_env run_rank0 (run_args\<lparr>RemoveEmpty := x\<rparr>) = [run_cell 0 0, run_cell 1 2]"
  "leaf_cells run_env run_rank1 (run_args\<lparr>RemoveEmpty := x\<rparr>) = [run_cell 0 (- 1)]"
  by (simp_all add: leaf_cells_def levels_def patch_cells_def
        run_env_def run_rank0_def run_rank1_def run_args_def run_patch_def run_cell_def
        nearest_image_def Periodic_def HalfBox_def Let_def upt_conv_Cons)

lemma bin_of_RemoveEmpty: "bin_of env (a\<lparr>RemoveEmpty := x\<rparr>) = bin_of env a"
  by (intro ext)
     (simp add: bin_of_def binned_def cell_bin_RemoveEmpty geometry_MaxRadius_def geometry_NBin_def
        log_quotient_def radius_of_bin_def)

lemma run_counted:
  "counted run_env (run_args\<lparr>RemoveEmpty := x\<rparr>) (run_cell PID 0)"
  "counted run_env (run_args\<lparr>RemoveEmpty := x\<rparr>) (run_cell PID 2)"
  "counted run_env (run_args\<lparr>RemoveEmpty := x\<rparr>) (run_cell PID (- 1))"
  unfolding bin_of_counted [symmetric] bin_of_RemoveEmpty by (simp_all add: run_bin_of)

theorem cell_count_total_witness:
  "\<exists>res. Aux_ComputeProfile run_env (run_args\<lparr>RemoveEmpty := True\<rparr>) run_ranks = Inr res
         \<and> NBin (res ! 0 ! 1) = 3
         \<and> sum_list (take (nat (NBin (res ! 0 ! 1))) (NCell (res ! 0 ! 1))) = 3"
proof -
  let ?a = "run_args\<lparr>RemoveEmpty := True\<rparr>"
  from run_returns [of True] obtain res
    where T: "Aux_ComputeProfile run_env ?a run_ranks = Inr res" ..
  from Aux_ComputeProfile_final(3) [OF run_ranks_ne run_ranks_len T, of 0 1]
  have "visible (res ! 0 ! 1) = final True run_env run_args run_ranks (run_ranks ! 0) 1"
    by (simp add: run_ranks_def)
  then have "NBin (visible (res ! 0 ! 1)) = 3" by (simp add: run_final_True)
  then have n: "NBin (res ! 0 ! 1) = 3" by (simp add: visible_fields)
  have sch: "\<forall>R\<in>set run_ranks. \<forall>lv PID. sched R lv PID < NT run_env"
    by (simp add: run_ranks_def run_rank0_def run_rank1_def run_env_def)
  have r: "0 < length run_ranks" by (simp add: run_ranks_def)
  have p: "(1::nat) < 2" by simp
  from cell_count_total [OF run_ranks_ne run_ranks_len sch T r p]
  have "sum_list (take (nat (NBin (res ! 0 ! 1))) (NCell (res ! 0 ! 1)))
        = int (sum_list (map (\<lambda>R. length (filter (counted run_env ?a) (leaf_cells run_env R ?a)))
                           run_ranks))"
    by (rule conjunct1)
  also have "\<dots> = 3"
    by (simp add: run_ranks_def run_leaf_cells run_counted)
  finally show ?thesis using T n by blast
qed

section \<open>A cell at the edge of the last bin\<close>

text \<open>The \<^verbatim>\<open>double\<close> nearest to 1.7, the one nearest to 0.1, and the square of the
  first as a \<^verbatim>\<open>double\<close>.\<close>

definition dbl_1_7 :: real where
  "dbl_1_7 = 7656119366529843 / 2 ^ 52"

definition dbl_0_1 :: real where
  "dbl_0_1 = 3602879701896397 / 2 ^ 55"

definition dbl_2_89 :: real where
  "dbl_2_89 = 6507701461550366 / 2 ^ 51"

text \<open>
  One rank with one leaf cell, and linear bins with \<open>r_max = 1.7\<close> and
  \<open>dr_min = 0.1\<close>. The profile centre has the coordinates \<open>(0.5 - 1.7, 0.5, 0.5)\<close>,
  all of them values of \<^verbatim>\<open>double\<close>, and the cell centre \<open>(0.5, 0.5, 0.5)\<close>, at the
  offset \<open>(1.7, 0, 0)\<close>.
\<close>

definition edge_rank :: rank_t where
  "edge_rank =
     \<lparr>amr = \<lparr>BoxSize = (\<lambda>d. 8), dh = (\<lambda>lv. 1), NPatchComma = (\<lambda>lv k. 1), FluSg = (\<lambda>lv. 0),
              patch = (\<lambda>Sg lv PID. \<lparr>son = - 1, EdgeL = (\<lambda>d. 0), fluid = (\<lambda>v k j i. 2),
                                      magnetic = (\<lambda>v k j i. 0)\<rparr>)\<rparr>,
      Prof_in = [fresh_Profile], sched = (\<lambda>lv PID. 0)\<rparr>"

definition edge_args :: args_t where
  "edge_args =
     \<lparr>Center_in = (\<lambda>d. if d = 0 then 1 / 2 - dbl_1_7 else 1 / 2),
      r_max_input = dbl_1_7, dr_min = dbl_0_1,
      LogBin_in = False, LogBinRatio_in = 0, RemoveEmpty = False, TVar = [DENS], SingleLv = - 1\<rparr>"

definition edge_cell :: cell_t where
  "edge_cell =
     \<lparr>c_lv = 0, c_PID = 0, c_k = 0, c_j = 0, c_i = 0, c_dx = dbl_1_7, c_dy = 0, c_dz = 0\<rparr>"

text \<open>The roundings of this run.\<close>

lemma rnd_eqI_pos:
  assumes x: "0 < x" and lo: "2 powi e \<le> x" and hi: "x < 2 powi (e + 1)"
    and q: "q = 2 powi (e - 52)" and n: "\<bar>of_int n * q - x\<bar> * 2 < q"
  shows "rnd x = of_int n * q"
proof -
  have qp: "0 < q" unfolding q by simp
  have "\<bar>of_int n - x / q\<bar> = \<bar>of_int n * q - x\<bar> / q"
    using qp by (simp add: field_simps abs_mult [symmetric] abs_divide)
  also have "\<dots> < 1 / 2" using n qp by (simp add: field_simps)
  finally have "\<bar>of_int n - \<bar>x\<bar> / 2 powi (e - 52)\<bar> < 1 / 2" using x q by simp
  from rnd_eqI [of e x n, OF _ _ this] lo hi x show ?thesis by (simp add: q)
qed

lemma powi_m52: "(2::real) powi (- 52) = 1 / 2 ^ 52"
  by (simp add: power_int_def power_one_over)

lemma powi_m48: "(2::real) powi (- 48) = 1 / 2 ^ 48"
  by (simp add: power_int_def power_one_over)

lemma powi_m51: "(2::real) powi (- 51) = 1 / 2 ^ 51"
  by (simp add: power_int_def power_one_over)

lemma edge_centre: "rnd (1 / 2 - dbl_1_7) = 1 / 2 - dbl_1_7"
  using rnd_dyadic [of "- 5404319552844595" "- 52"] by (simp add: powi_m52 dbl_1_7_def)

lemma edge_dx: "rnd dbl_1_7 = dbl_1_7"
  using rnd_dyadic [of 7656119366529843 "- 52"] by (simp add: powi_m52 dbl_1_7_def)

lemma edge_range: "\<not> 4 < dbl_1_7" "\<not> dbl_1_7 < - 4" "0 < dbl_0_1" "\<not> dbl_1_7 < dbl_0_1"
  by (simp_all add: dbl_1_7_def dbl_0_1_def)

lemma edge_quotient: "rnd (dbl_1_7 / dbl_0_1) = 17"
proof -
  have "rnd (dbl_1_7 / dbl_0_1) = of_int 4785074604081152 * (1 / 2 ^ 48)"
    by (rule rnd_eqI_pos [where e = 4]) (simp_all add: powi_m48 dbl_1_7_def dbl_0_1_def)
  then show ?thesis by simp
qed

lemma edge_product: "rnd (dbl_0_1 * 17) = 7656119366529844 / 2 ^ 52"
proof -
  have "rnd (dbl_0_1 * 17) = of_int 7656119366529844 * (1 / 2 ^ 52)"
    by (rule rnd_eqI_pos [where e = 0]) (simp_all add: powi_m52 dbl_0_1_def)
  then show ?thesis by simp
qed

lemma edge_r_max2: "rnd (SQR (7656119366529844 / 2 ^ 52)) = 6507701461550368 / 2 ^ 51"
proof -
  have "rnd (SQR (7656119366529844 / 2 ^ 52)) = of_int 6507701461550368 * (1 / 2 ^ 51)"
    by (rule rnd_eqI_pos [where e = 1]) (simp_all add: powi_m51 SQR_def)
  then show ?thesis by simp
qed

lemma edge_dx2: "rnd (SQR dbl_1_7) = dbl_2_89"
proof -
  have "rnd (SQR dbl_1_7) = of_int 6507701461550366 * (1 / 2 ^ 51)"
    by (rule rnd_eqI_pos [where e = 1]) (simp_all add: powi_m51 SQR_def dbl_1_7_def)
  then show ?thesis by (simp add: dbl_2_89_def)
qed

lemma edge_r2: "rnd dbl_2_89 = dbl_2_89"
  using rnd_dyadic [of 6507701461550366 "- 51"] by (simp add: powi_m51 dbl_2_89_def)

lemma edge_sqrt: "rnd (sqrt dbl_2_89) = dbl_1_7"
proof -
  let ?y = "6507701461550366 / 2 ^ 51 :: real"
  let ?n = "7656119366529843 :: real"
  have lo: "(?n - 1 / 2) / 2 ^ 52 < sqrt ?y"
    by (rule real_less_rsqrt) (simp add: power2_eq_square)
  have hi: "sqrt ?y < (?n + 1 / 2) / 2 ^ 52"
    by (rule real_less_lsqrt) (simp_all add: power2_eq_square)
  have "rnd (sqrt ?y) = of_int 7656119366529843 * (1 / 2 ^ 52)"
  proof (rule rnd_eqI_pos [where e = 0])
    show "0 < sqrt ?y" by simp
    show "2 powi 0 \<le> sqrt ?y" using lo by simp
    show "sqrt ?y < 2 powi (0 + 1)" using hi by simp
    show "(1 / 2 ^ 52 :: real) = 2 powi (0 - 52)" by (simp add: powi_m52)
    show "\<bar>of_int 7656119366529843 * (1 / 2 ^ 52) - sqrt ?y\<bar> * 2 < 1 / 2 ^ 52"
      using lo hi by (simp add: abs_if field_simps)
  qed
  then show ?thesis by (simp add: dbl_2_89_def dbl_1_7_def)
qed

lemma SQR_0 [simp]: "SQR 0 = 0"
  by (simp add: SQR_def)

lemma edge_NBin: "geometry_NBin run_env edge_args = 17"
  by (simp add: geometry_NBin_def edge_args_def edge_quotient)

lemma edge_fits: "geometry_fits run_env edge_args"
  by (simp add: geometry_fits_def edge_args_def edge_quotient INT_MIN_def INT_MAX_def)

lemma edge_MaxRadius: "geometry_MaxRadius run_env edge_args = 7656119366529844 / 2 ^ 52"
  by (simp add: geometry_MaxRadius_def edge_NBin) (simp add: edge_args_def edge_product)

lemma edge_cell_r2: "cell_r2 edge_cell = dbl_2_89"
  by (simp add: cell_r2_def edge_cell_def edge_dx2 edge_r2)

lemma edge_cell_r: "cell_r edge_cell = dbl_1_7"
  by (simp add: cell_r_def edge_cell_r2 edge_sqrt)

lemma edge_bin_index: "bin_index run_env edge_args (cell_r edge_cell) = Inr 17"
  by (simp add: bin_index_def edge_cell_r edge_args_def edge_quotient int_of_double_def in_int_def
        trunc_def INT_MIN_def INT_MAX_def)

lemma edge_below: "cell_r2 edge_cell < rnd (SQR (geometry_MaxRadius run_env edge_args))"
  unfolding edge_cell_r2 edge_MaxRadius edge_r_max2 by (simp add: dbl_2_89_def)

lemma edge_not_counted: "\<not> counted run_env edge_args edge_cell"
  by (simp add: counted_def edge_bin_index edge_NBin)

lemma edge_leaf_cells: "leaf_cells run_env edge_rank edge_args = [edge_cell]"
  by (simp add: leaf_cells_def levels_def patch_cells_def run_env_def edge_rank_def edge_args_def
        edge_cell_def nearest_image_def Periodic_def HalfBox_def Let_def upt_conv_Cons
        edge_dx edge_range)

lemma edge_rank_cells: "rank_cells run_env edge_rank edge_args = [edge_cell]"
  by (simp add: rank_cells_def thread_cells_def level_cells_def levels_def patch_cells_def
        run_env_def edge_rank_def edge_args_def edge_cell_def nearest_image_def
        Periodic_def HalfBox_def Let_def upt_conv_Cons edge_dx edge_range)

lemma edge_returns: "\<exists>res. Aux_ComputeProfile run_env edge_args [edge_rank] = Inr res"
proof -
  have loc: "local_profile run_env edge_args edge_rank
             = Inr (map (accumulated run_env edge_args edge_rank) [0..<length (Prof_in edge_rank)])"
  proof (rule local_profile_ok)
    show "check_params run_env edge_args = Inr ()"
      by (simp add: check_params_def run_env_def edge_args_def dbl_1_7_def dbl_0_1_def)
    show "geometry_fits run_env edge_args" by (rule edge_fits)
    show "0 \<le> geometry_NBin run_env edge_args" by (simp add: edge_NBin)
    show "Prof_in edge_rank \<noteq> []" by (simp add: edge_rank_def)
    show "0 < NT run_env" by (simp add: run_env_def)
    show "cell_bin run_env edge_args (rnd (SQR (geometry_MaxRadius run_env edge_args)))
            (geometry_NBin run_env edge_args) c \<noteq> Inl e"
      if "c \<in> set (rank_cells run_env edge_rank edge_args)" for c e
      using that by (simp add: edge_rank_cells cell_bin_def edge_bin_index edge_NBin)
    show "supported (TVar edge_args ! p)" if "p < length (Prof_in edge_rank)" for p
      using that by (simp add: edge_rank_def edge_args_def supported_def)
  qed
  have "\<exists>res. Aux_ComputeProfile run_env (edge_args\<lparr>RemoveEmpty := False\<rparr>) [edge_rank] = Inr res"
  proof (rule Aux_ComputeProfile_ok [where NProf = 1])
    show "[edge_rank] \<noteq> []" by simp
    show "\<forall>R\<in>set [edge_rank]. length (Prof_in R) = 1" by (simp add: edge_rank_def)
    show "0 < (1::nat)" by simp
    show "0 \<le> geometry_NBin run_env edge_args" by (simp add: edge_NBin)
    show "local_profile run_env edge_args R = Inr (map (accumulated run_env edge_args R) [0..<1])"
      if "R \<in> set [edge_rank]" for R
      using that loc by (simp add: edge_rank_def)
    show "2 \<le> (if False then int (length (kept (map (total_NCell run_env edge_args [edge_rank])
                                        [0..<nat (geometry_NBin run_env edge_args)]) 0
                                        (nat (geometry_NBin run_env edge_args))))
              else geometry_NBin run_env edge_args)"
      by (simp add: edge_NBin)
  qed
  moreover have "edge_args\<lparr>RemoveEmpty := False\<rparr> = edge_args" by (simp add: edge_args_def)
  ultimately show ?thesis by simp
qed

text \<open>
  Claim C9 as stated fails through round-off. The geometry gives 17 bins and the
  maximum radius \<open>0.1 * 17 = 1.7000000000000002\<close>. The cell has
  \<open>r2 = 2.8899999999999997\<close>, below the squared maximum radius
  \<open>2.8900000000000006\<close>, and \<open>r = 1.7\<close>, below the maximum radius, but its bin index
  is \<open>int(1.7 / 0.1) = 17\<close>, which line 212 skips: the call returns with all cell
  counts zero.
\<close>

theorem cell_count_roundoff_counterexample:
  "\<exists>res. Aux_ComputeProfile run_env edge_args [edge_rank] = Inr res
         \<and> sum_list (take (nat (NBin (res ! 0 ! 0))) (NCell (res ! 0 ! 0))) = 0
         \<and> leaf_cells run_env edge_rank edge_args = [edge_cell]
         \<and> cell_r2 edge_cell < rnd (SQR (geometry_MaxRadius run_env edge_args))
         \<and> cell_r edge_cell < geometry_MaxRadius run_env edge_args"
proof -
  from edge_returns obtain res
    where ret: "Aux_ComputeProfile run_env edge_args [edge_rank] = Inr res" ..
  then have ret': "Aux_ComputeProfile run_env (edge_args\<lparr>RemoveEmpty := RemoveEmpty edge_args\<rparr>)
                     [edge_rank] = Inr res"
    by simp
  have len: "\<forall>R\<in>set [edge_rank]. length (Prof_in R) = 1" by (simp add: edge_rank_def)
  have sch: "\<forall>R\<in>set [edge_rank]. \<forall>lv PID. sched R lv PID < NT run_env"
    by (simp add: edge_rank_def run_env_def)
  let ?F = "final (RemoveEmpty edge_args) run_env edge_args [edge_rank] ([edge_rank] ! 0) 0"
  have v: "visible (res ! 0 ! 0) = ?F"
    by (rule Aux_ComputeProfile_final(3) [OF _ len ret']) simp_all
  have "sum_list (take (nat (NBin (res ! 0 ! 0))) (NCell (res ! 0 ! 0))) = sum_list (NCell ?F)"
    unfolding v [symmetric] by (simp add: visible_fields)
  also have "\<dots> = sum_list (map (total_NCell run_env edge_args [edge_rank])
                            [0..<nat (geometry_NBin run_env edge_args)])"
    by (rule final_NCell_sum)
  also have "\<dots> = int (sum_list (map (\<lambda>R. length (filter (counted run_env edge_args)
                                                     (leaf_cells run_env R edge_args))) [edge_rank]))"
    by (rule total_NCell_sum [OF sch])
  also have "\<dots> = 0" by (simp add: edge_leaf_cells edge_not_counted)
  finally have "sum_list (take (nat (NBin (res ! 0 ! 0))) (NCell (res ! 0 ! 0))) = 0" .
  moreover have "cell_r edge_cell < geometry_MaxRadius run_env edge_args"
    by (simp add: edge_cell_r edge_MaxRadius dbl_1_7_def)
  ultimately show ?thesis using ret edge_leaf_cells edge_below by blast
qed

section \<open>The normalisation within a call\<close>

text \<open>The profiles the root rank normalises hold the sums over all ranks.\<close>

lemma reduce_root_fields:
  assumes ne: "ranks \<noteq> []" and len: "\<forall>R\<in>set ranks. length (Prof_in R) = NProf"
    and loc: "map_err (local_profile env a) ranks = Inr locals"
  shows "length (reduce_root locals) = NProf"
    and "p < NProf \<Longrightarrow> NBin (reduce_root locals ! p) = geometry_NBin env a"
    and "p < NProf \<Longrightarrow> Data (reduce_root locals ! p)
                         = map (total_Data env a ranks p) [0..<nat (geometry_NBin env a)]"
    and "p < NProf \<Longrightarrow> Weight (reduce_root locals ! p)
                         = map (total_Weight env a ranks p) [0..<nat (geometry_NBin env a)]"
    and "p < NProf \<Longrightarrow> NCell (reduce_root locals ! p)
                         = map (total_NCell env a ranks) [0..<nat (geometry_NBin env a)]"
proof -
  let ?L = "\<lambda>R. map (accumulated env a R) [0..<length (Prof_in R)]"
  from map_err_Inr [OF loc] have ll: "length locals = length ranks"
    and each: "\<And>i. i < length ranks \<Longrightarrow> local_profile env a (ranks ! i) = Inr (locals ! i)"
    by simp_all
  have locals: "locals = map ?L ranks"
  proof (rule nth_equalityI)
    show "length locals = length (map ?L ranks)" using ll by simp
  next
    fix i assume "i < length locals"
    then have i: "i < length ranks" using ll by simp
    from local_profile_Inr(1) [OF each [OF i]] i
    show "locals ! i = map ?L ranks ! i" by simp
  qed
  note eq = reduce_root_accumulated [OF ne len, of env a, folded locals]
  show "length (reduce_root locals) = NProf" by (simp add: eq)
  show "NBin (reduce_root locals ! p) = geometry_NBin env a" if "p < NProf"
    using that by (simp add: eq accumulated_fields)
  show "Data (reduce_root locals ! p) = map (total_Data env a ranks p) [0..<nat (geometry_NBin env a)]"
    if "p < NProf" using that by (simp add: eq)
  show "Weight (reduce_root locals ! p) = map (total_Weight env a ranks p) [0..<nat (geometry_NBin env a)]"
    if "p < NProf" using that by (simp add: eq)
  show "NCell (reduce_root locals ! p) = map (total_NCell env a ranks) [0..<nat (geometry_NBin env a)]"
    if "p < NProf" using that by (simp add: eq)
qed

text \<open>A bin no cell was counted in has received no data and no weight.\<close>

lemma bin_total_empty:
  assumes "bin_total binof (\<lambda>c. 1 :: int) cs b = 0"
  shows "bin_total binof f cs b = 0"
proof -
  from assms have "filter (\<lambda>c. binof c = Some b) cs = []"
    by (simp add: bin_total_def sum_list_triv)
  then show ?thesis by (simp add: bin_total_def)
qed

lemma rank_NCell_nonneg: "0 \<le> rank_NCell env a R b"
  by (simp add: rank_NCell_def bin_total_def sum_list_triv)

lemma total_NCell_nonneg: "0 \<le> total_NCell env a ranks b"
  unfolding total_NCell_def by (rule sum_list_nonneg) (auto simp: rank_NCell_nonneg)

lemma sum_list_all_zero:
  fixes f :: "'a \<Rightarrow> real"
  shows "(\<And>x. x \<in> set xs \<Longrightarrow> f x = 0) \<Longrightarrow> sum_list (map f xs) = 0"
  by (induction xs) simp_all

lemma total_zero:
  assumes "total_NCell env a ranks b = 0"
  shows "total_Data env a ranks p b = 0" and "total_Weight env a ranks p b = 0"
proof -
  have z: "rank_NCell env a R b = 0" if "R \<in> set ranks" for R
  proof -
    have "(\<forall>x\<in>set (map (\<lambda>R. rank_NCell env a R b) ranks). x = 0)"
      using assms unfolding total_NCell_def
      by (subst sum_list_nonneg_eq_0_iff [symmetric]) (auto simp: rank_NCell_nonneg)
    with that show ?thesis by simp
  qed
  have "rank_Data env a R p b = 0" "rank_Weight env a R p b = 0" if "R \<in> set ranks" for R
    using z [OF that] by (simp_all add: rank_NCell_def rank_Data_def rank_Weight_def bin_total_empty)
  then show "total_Data env a ranks p b = 0" "total_Weight env a ranks p b = 0"
    unfolding total_Data_def total_Weight_def by (simp_all add: sum_list_all_zero)
qed

text \<open>
  Claim C2. In the normalisation of a call, on the profiles \<open>Root\<close> the root rank holds
  after the reduction: a bin \<open>b\<close> with \<open>NCell[b] > 0\<close> of a plain volume-weighted quantity
  (density, energy, the momenta, pressure, internal energy) gets \<open>Data[b] / Weight[b]\<close>
  whatever the weight is; for the radial velocity it gets \<open>Data[b] / Weight[b]\<close> only if
  \<open>Weight[b] > 0\<close> and keeps the accumulated sum otherwise; no cell count is negative,
  and a bin with \<open>NCell[b] = 0\<close> has data and weight zero before and after; the weights
  and the cell counts of all bins are left as they are. All ranks pass the same number of
  profiles.
\<close>

theorem normalize_divides:
  assumes ne: "ranks \<noteq> []" and len: "\<forall>R\<in>set ranks. length (Prof_in R) = NProf"
    and loc: "map_err (local_profile env a) ranks = Inr locals"
    and Root: "Root = reduce_root locals"
    and p: "p < NProf" and b: "b < nat (geometry_NBin env a)"
  shows "Data (normalize a Root ! p) ! b
         = (if NCell (Root ! p) ! b > 0 then
              (if TVar a ! p \<in> {DENS, ENGY, MOMX, MOMY, MOMZ, PRESSURE, INTERNAL_ENGY}
               then Data (Root ! p) ! b / Weight (Root ! p) ! b
               else if TVar a ! p = VRAD \<and> Weight (Root ! p) ! b > 0
               then Data (Root ! p) ! b / Weight (Root ! p) ! b
               else Data (Root ! p) ! b)
            else Data (Root ! p) ! b)
         \<and> Weight (normalize a Root ! p) = Weight (Root ! p)
         \<and> NCell (normalize a Root ! p) = NCell (Root ! p)
         \<and> 0 \<le> NCell (Root ! p) ! b
         \<and> (NCell (Root ! p) ! b = 0 \<longrightarrow>
              Data (Root ! p) ! b = 0 \<and> Weight (Root ! p) ! b = 0
              \<and> Data (normalize a Root ! p) ! b = 0 \<and> Weight (normalize a Root ! p) ! b = 0)"
proof -
  note f = reduce_root_fields [OF ne len loc, folded Root]
  from p have p0: "0 < NProf" by simp
  have pl: "p < length Root" using p f(1) by simp
  have bn: "b < nat (NBin (Root ! 0))" using b f(2) [OF p0] by simp
  have bd: "b < length (Data (Root ! p))" using b f(3) [OF p] by simp
  note N = normalize_Data_nth [OF pl bn bd, of a]
  have D: "Data (Root ! p) ! b = total_Data env a ranks p b"
    and W: "Weight (Root ! p) ! b = total_Weight env a ranks p b"
    and C: "NCell (Root ! p) ! b = total_NCell env a ranks b"
    using b by (simp_all add: f(3-5) [OF p])
  have nn: "0 \<le> NCell (Root ! p) ! b" unfolding C by (rule total_NCell_nonneg)
  have z: "Data (Root ! p) ! b = 0 \<and> Weight (Root ! p) ! b = 0
           \<and> Data (normalize a Root ! p) ! b = 0 \<and> Weight (normalize a Root ! p) ! b = 0"
    if "NCell (Root ! p) ! b = 0"
  proof -
    from that have t: "total_NCell env a ranks b = 0" by (simp only: C)
    have "Data (Root ! p) ! b = 0" "Weight (Root ! p) ! b = 0"
      unfolding D W by (rule total_zero [OF t])+
    moreover from N that have "Data (normalize a Root ! p) ! b = Data (Root ! p) ! b"
      "Weight (normalize a Root ! p) ! b = Weight (Root ! p) ! b" by simp_all
    ultimately show ?thesis by simp
  qed
  from N nn z show ?thesis by blast
qed

theorem normalize_divides_witness:
  "\<exists>locals. map_err (local_profile run_env run_args) run_ranks = Inr locals
     \<and> NCell (reduce_root locals ! 0) ! 0 = 1
     \<and> Data (reduce_root locals ! 0) ! 0 = 2 \<and> Weight (reduce_root locals ! 0) ! 0 = 1
     \<and> Data (normalize run_args (reduce_root locals) ! 0) ! 0 = 2
     \<and> NCell (reduce_root locals ! 0) ! 3 = 0
     \<and> Data (normalize run_args (reduce_root locals) ! 0) ! 3 = 0
     \<and> Weight (normalize run_args (reduce_root locals) ! 0) ! 3 = 0"
proof -
  from run_returns [of False] obtain res
    where "Aux_ComputeProfile run_env (run_args\<lparr>RemoveEmpty := False\<rparr>) run_ranks = Inr res" ..
  then have "Aux_ComputeProfile run_env run_args run_ranks = Inr res"
    by (simp add: run_args_def)
  from Aux_ComputeProfile_Inr_local [OF this] obtain locals
    where loc: "map_err (local_profile run_env run_args) run_ranks = Inr locals" ..
  note f = reduce_root_fields [OF run_ranks_ne run_ranks_len loc]
  have p: "(0::nat) < 2" by simp
  have c0: "NCell (reduce_root locals ! 0) ! 0 = 1" and d0: "Data (reduce_root locals ! 0) ! 0 = 2"
    and w0: "Weight (reduce_root locals ! 0) ! 0 = 1" and c3: "NCell (reduce_root locals ! 0) ! 3 = 0"
    by (simp_all add: f(3-5) [OF p] run_NBin run_total_NCell run_total_Data [OF p]
          run_total_Weight [OF p])
  have q: "TVar run_args ! 0 = DENS" by (simp add: run_args_def)
  from normalize_divides [OF run_ranks_ne run_ranks_len loc refl p, of 0] c0 d0 w0 q
  have "Data (normalize run_args (reduce_root locals) ! 0) ! 0 = 2" by (simp add: run_NBin)
  moreover from normalize_divides [OF run_ranks_ne run_ranks_len loc refl p, of 3] c3
  have "Data (normalize run_args (reduce_root locals) ! 0) ! 3 = 0"
    "Weight (normalize run_args (reduce_root locals) ! 0) ! 3 = 0" by (simp_all add: run_NBin)
  ultimately show ?thesis using loc c0 d0 w0 c3 by blast
qed

end
